theory Spec2Isabelle
  imports Complex_Main "HOL-Library.Multiset" "HOL-Library.Word" "HOL-Library.List_Lexorder"
    "HOL-Library.Sublist"
begin

section \<open>Relaxed witness complex construction (Gudhi, Witness\_complex)\<close>

text \<open>
  A shallow embedding of \<^verbatim>\<open>Relaxed_witness_complex.h\<close>: the class
  \<^verbatim>\<open>Relaxed_witness_complex\<close> (constructor, \<^verbatim>\<open>add_all_faces_of_dimension\<close>,
  \<^verbatim>\<open>all_faces_in\<close>) and the class \<^verbatim>\<open>Witness_complex_new\<close>
  (\<^verbatim>\<open>create_complex\<close>, \<^verbatim>\<open>fill_vertices\<close>, \<^verbatim>\<open>fill_edges\<close>,
  \<^verbatim>\<open>fill_simplices\<close> and its own \<^verbatim>\<open>add_all_faces_of_dimension\<close>).

  Conventions of the embedding.
  \<^item> A \<^verbatim>\<open>double\<close> distance and the relaxation parameter are real numbers; the only
    infinite value the code itself creates, the initial \<^verbatim>\<open>norelax_dist\<close>, is the
    constructor \<open>Infinity\<close> of the type \<open>dist\<close>. Rounding, NaN and infinite inputs are
    not modelled.
  \<^item> A pair of iterators \<^verbatim>\<open>(curr_d, curr_l)\<close> into a witness's row is the pair of the
    remaining suffixes of the row; \<^verbatim>\<open>curr_l == end\<close> is the empty suffix, and
    dereferencing an iterator whose suffix is empty is an out-of-range read.
  \<^item> An out-of-range read of the loop guard is recorded in the field \<open>oob_read\<close> of the
    run state. The guard is \<^verbatim>\<open>*d_it - alpha <= norelax_dist && l_it != end\<close>; when the
    distance row is exhausted together with the landmark row the second conjunct is false
    whatever value was read, so the loop is left.
  \<^item> The fields \<open>call_depth\<close> and \<open>max_call_depth\<close> of the run state are ghost
    variables: they count the nesting of the activations of
    \<^verbatim>\<open>add_all_faces_of_dimension\<close> and influence nothing else.
  \<^item> The landmark count \<^verbatim>\<open>nbL\<close> is a natural number: it is a count, and the initial
    fill \<^verbatim>\<open>for (int i = 0; i != nbL; ++i)\<close> has no meaning for a negative one.
  \<^item> The parameter \<^verbatim>\<open>dim\<close> is written \<open>dm\<close>, since \<open>dim\<close> is a constant of the library.
\<close>

subsection \<open>The simplicial complex container\<close>

type_synonym vertex = int
type_synonym simplex = "vertex list"

text \<open>Modelled from the spec: the container \<^verbatim>\<open>Simplicial_complex\<close> (Gudhi's simplex tree) is
  not part of the sources at hand. Following the spec's interface
  (\<^verbatim>\<open>insert(vertex_set, filtration) -> already_present|inserted\<close>,
  \<^verbatim>\<open>find(vertex_set) -> present|absent\<close>, recorded filtration values, identity of a
  simplex by its canonical sorted vertex tuple), a complex is an association list from
  sorted vertex tuples to filtration values, in insertion order, together with the
  dimension set by \<^verbatim>\<open>set_dimension\<close>. The empty vertex range is never a simplex, and
  inserting a simplex that is present leaves the complex as it is.
\<close>

record simplicial_complex =
  simplices :: "(vertex list \<times> real) list"
  dimension :: int

definition empty_complex :: simplicial_complex where
  "empty_complex = \<lparr>simplices = [], dimension = - 1\<rparr>"

definition find_simplex :: "simplicial_complex \<Rightarrow> simplex \<Rightarrow> real option" where
  "find_simplex c s = (if s = [] then None else map_of (simplices c) (sort s))"

definition insert_simplex :: "simplicial_complex \<Rightarrow> simplex \<Rightarrow> real \<Rightarrow> simplicial_complex" where
  "insert_simplex c s fv =
     (if s = [] \<or> find_simplex c s \<noteq> None then c
      else c\<lparr>simplices := simplices c @ [(sort s, fv)]\<rparr>)"

definition set_dimension :: "simplicial_complex \<Rightarrow> int \<Rightarrow> simplicial_complex" where
  "set_dimension c d = c\<lparr>dimension := d\<rparr>"

definition num_vertices :: "simplicial_complex \<Rightarrow> nat" where
  "num_vertices c = length (filter (\<lambda>(s, fv). length s = 1) (simplices c))"

subsection \<open>Distances with infinity\<close>

datatype dist = Finite real | Infinity

fun dist_le :: "real \<Rightarrow> dist \<Rightarrow> bool" where
  "dist_le x Infinity = True"
| "dist_le x (Finite y) = (x \<le> y)"

fun dist_less :: "real \<Rightarrow> dist \<Rightarrow> bool" where
  "dist_less x Infinity = True"
| "dist_less x (Finite y) = (x < y)"

fun dist_gt :: "real \<Rightarrow> dist \<Rightarrow> bool" where
  "dist_gt x Infinity = False"
| "dist_gt x (Finite y) = (x > y)"

text \<open>\<^verbatim>\<open>*d_it - norelax_dist\<close>; the code evaluates it only under \<^verbatim>\<open>*d_it > norelax_dist\<close>,
  where \<^verbatim>\<open>norelax_dist\<close> is finite.\<close>

fun dist_diff :: "real \<Rightarrow> dist \<Rightarrow> real" where
  "dist_diff x (Finite y) = x - y"
| "dist_diff x Infinity = 0"

subsection \<open>Run state\<close>

record run_state =
  sc :: simplicial_complex
  oob_read :: bool
  call_depth :: nat
  max_call_depth :: nat

definition init_state :: "simplicial_complex \<Rightarrow> run_state" where
  "init_state c = \<lparr>sc = c, oob_read = False, call_depth = 0, max_call_depth = 0\<rparr>"

definition enter :: "run_state \<Rightarrow> run_state" where
  "enter st = st\<lparr>call_depth := call_depth st + 1,
                 max_call_depth := max (max_call_depth st) (call_depth st + 1)\<rparr>"

definition leave :: "run_state \<Rightarrow> run_state" where
  "leave st = st\<lparr>call_depth := call_depth st - 1\<rparr>"

subsection \<open>\<^verbatim>\<open>Relaxed_witness_complex::all_faces_in\<close>\<close>

text \<open>The facet of a candidate that omits the vertex at position \<open>i\<close>
  (\<^verbatim>\<open>if (it != not_it) facet.push_back(*it)\<close>).\<close>

definition facet :: "simplex \<Rightarrow> nat \<Rightarrow> simplex" where
  "facet simplex i = take i simplex @ drop (Suc i) simplex"

fun all_faces_in_loop ::
  "simplicial_complex \<Rightarrow> simplex \<Rightarrow> nat list \<Rightarrow> real \<Rightarrow> bool \<times> real" where
  "all_faces_in_loop c simplex [] filtration_value = (True, filtration_value)"
| "all_faces_in_loop c simplex (not_it # rest) filtration_value =
     (case find_simplex c (facet simplex not_it) of
        None \<Rightarrow> (False, filtration_value)
      | Some f \<Rightarrow>
          all_faces_in_loop c simplex rest (if f > filtration_value then f else filtration_value))"

definition all_faces_in :: "simplicial_complex \<Rightarrow> simplex \<Rightarrow> real \<Rightarrow> bool \<times> real" where
  "all_faces_in c simplex filtration_value =
     all_faces_in_loop c simplex [0..<length simplex] filtration_value"

subsection \<open>\<^verbatim>\<open>Relaxed_witness_complex::add_all_faces_of_dimension\<close>\<close>

text \<open>The first conjunct of both loop guards, \<^verbatim>\<open>*d_it - alpha <= norelax_dist\<close>.\<close>

definition admissible :: "real \<Rightarrow> dist \<Rightarrow> real \<Rightarrow> bool" where
  "admissible alpha norelax_dist d = dist_le (d - alpha) norelax_dist"

text \<open>The update of \<^verbatim>\<open>norelax_dist\<close> in the loop for \<^verbatim>\<open>dim > 0\<close>
  (\<^verbatim>\<open>if (*d_it <= norelax_dist) norelax_dist = *d_it\<close>) and in the loop for
  \<^verbatim>\<open>dim == 0\<close> (\<^verbatim>\<open>if (*d_it < norelax_dist) norelax_dist = *d_it\<close>).\<close>

definition norelax_inner :: "real \<Rightarrow> dist \<Rightarrow> dist" where
  "norelax_inner d norelax_dist = (if dist_le d norelax_dist then Finite d else norelax_dist)"

definition norelax_leaf :: "real \<Rightarrow> dist \<Rightarrow> dist" where
  "norelax_leaf d norelax_dist = (if dist_less d norelax_dist then Finite d else norelax_dist)"

text \<open>The filtration value a leaf candidate starts with, before \<^verbatim>\<open>all_faces_in\<close>.\<close>

definition initial_filtration :: "real \<Rightarrow> dist \<Rightarrow> real" where
  "initial_filtration d norelax_dist =
     (if dist_gt d norelax_dist then dist_diff d norelax_dist else 0)"

text \<open>The body of the loop for \<^verbatim>\<open>dim == 0\<close> between \<^verbatim>\<open>push_back\<close> and
  \<^verbatim>\<open>pop_back\<close>, for the candidate \<open>simplex\<close> (the prefix with the landmark pushed).\<close>

definition leaf_visit ::
  "dist \<Rightarrow> real \<Rightarrow> simplex \<Rightarrow> bool \<Rightarrow> run_state \<Rightarrow> bool \<times> run_state" where
  "leaf_visit norelax_dist d simplex will_be_active st =
     (case all_faces_in (sc st) simplex (initial_filtration d norelax_dist) of
        (True, filtration_value) \<Rightarrow>
          (True, st\<lparr>sc := insert_simplex (sc st) simplex filtration_value\<rparr>)
      | (False, filtration_value) \<Rightarrow> (will_be_active, st))"

fun scan_leaf ::
  "real \<Rightarrow> dist \<Rightarrow> real list \<Rightarrow> vertex list \<Rightarrow> simplex \<Rightarrow> bool \<Rightarrow> run_state
     \<Rightarrow> bool \<times> run_state" where
  "scan_leaf alpha norelax_dist [] ls simplex will_be_active st =
     (will_be_active, st\<lparr>oob_read := True\<rparr>)"
| "scan_leaf alpha norelax_dist (d # ds) [] simplex will_be_active st = (will_be_active, st)"
| "scan_leaf alpha norelax_dist (d # ds) (l # ls) simplex will_be_active st =
     (if admissible alpha norelax_dist d then
        (case leaf_visit norelax_dist d (simplex @ [l]) will_be_active st of
           (wba1, st1) \<Rightarrow> scan_leaf alpha (norelax_leaf d norelax_dist) ds ls simplex wba1 st1)
      else (will_be_active, st))"

fun add_all_faces_of_dimension ::
      "int \<Rightarrow> real \<Rightarrow> dist \<Rightarrow> real list \<Rightarrow> vertex list \<Rightarrow> simplex \<Rightarrow> run_state
         \<Rightarrow> bool \<times> run_state"
  and scan_inner ::
      "int \<Rightarrow> real \<Rightarrow> dist \<Rightarrow> real list \<Rightarrow> vertex list \<Rightarrow> simplex \<Rightarrow> bool \<Rightarrow> run_state
         \<Rightarrow> bool \<times> run_state" where
  "add_all_faces_of_dimension dm alpha norelax_dist curr_d [] simplex st =
     (False, leave (enter st))"
| "add_all_faces_of_dimension dm alpha norelax_dist curr_d (l # ls) simplex st =
     (case (if dm > 0 then scan_inner dm alpha norelax_dist curr_d (l # ls) simplex False (enter st)
            else if dm = 0 then scan_leaf alpha norelax_dist curr_d (l # ls) simplex False (enter st)
            else (False, enter st)) of
        (will_be_active, st') \<Rightarrow> (will_be_active, leave st'))"
| "scan_inner dm alpha norelax_dist [] ls simplex will_be_active st =
     (will_be_active, st\<lparr>oob_read := True\<rparr>)"
| "scan_inner dm alpha norelax_dist (d # ds) [] simplex will_be_active st = (will_be_active, st)"
| "scan_inner dm alpha norelax_dist (d # ds) (l # ls) simplex will_be_active st =
     (if admissible alpha norelax_dist d then
        (case (if find_simplex (sc st) (simplex @ [l]) \<noteq> None
               then (case add_all_faces_of_dimension (dm - 1) alpha norelax_dist ds ls
                            (simplex @ [l]) st of
                       (r, st') \<Rightarrow> (r \<or> will_be_active, st'))
               else (will_be_active, st)) of
           (wba1, st1) \<Rightarrow>
             (case add_all_faces_of_dimension (dm - 1) alpha (norelax_inner d norelax_dist)
                     ds ls simplex st1 of
                (r2, st2) \<Rightarrow>
                  scan_inner dm alpha (norelax_inner d norelax_dist) ds ls simplex
                    (r2 \<or> wba1) st2))
      else (will_be_active, st))"

text \<open>The first branch of the loop body for \<^verbatim>\<open>dim > 0\<close>, between \<^verbatim>\<open>push_back\<close> and
  \<^verbatim>\<open>pop_back\<close>, named for the proofs.\<close>

definition include_call ::
  "int \<Rightarrow> real \<Rightarrow> dist \<Rightarrow> real list \<Rightarrow> vertex list \<Rightarrow> simplex \<Rightarrow> vertex \<Rightarrow> bool \<Rightarrow> run_state
     \<Rightarrow> bool \<times> run_state" where
  "include_call dm alpha norelax_dist ds ls simplex l will_be_active st =
     (if find_simplex (sc st) (simplex @ [l]) \<noteq> None
      then (case add_all_faces_of_dimension (dm - 1) alpha norelax_dist ds ls (simplex @ [l]) st of
              (r, st') \<Rightarrow> (r \<or> will_be_active, st'))
      else (will_be_active, st))"

subsection \<open>The constructor \<^verbatim>\<open>Relaxed_witness_complex\<close>\<close>

text \<open>\<^verbatim>\<open>distances[*aw_it]\<close> and \<^verbatim>\<open>knn[*aw_it]\<close>; both matrices are documented to have
  the same line lengths, and a missing line is read as an empty one.\<close>

definition row :: "'a list list \<Rightarrow> nat \<Rightarrow> 'a list" where
  "row m w = (if w < length m then m ! w else [])"

text \<open>The initial fill of the 0-dimensional simplices, one per landmark.\<close>

definition fill_landmarks :: "nat \<Rightarrow> simplicial_complex \<Rightarrow> simplicial_complex" where
  "fill_landmarks nbL c = fold (\<lambda>i c'. insert_simplex c' [int i] 0) [0..<nbL] c"

text \<open>The inner \<^verbatim>\<open>while (aw_it != active_w.end())\<close>: one pass over the active witnesses
  at dimension \<open>k\<close>; a witness whose call returns false is erased from the list.\<close>

fun witness_loop ::
  "int \<Rightarrow> real \<Rightarrow> real list list \<Rightarrow> vertex list list \<Rightarrow> nat list \<Rightarrow> run_state
     \<Rightarrow> nat list \<times> run_state" where
  "witness_loop k alpha distances knn [] st = ([], st)"
| "witness_loop k alpha distances knn (aw # active_w) st =
     (case add_all_faces_of_dimension k alpha Infinity (row distances aw) (row knn aw) [] st of
        (ok, st1) \<Rightarrow>
          (case witness_loop k alpha distances knn active_w st1 of
             (rest, st2) \<Rightarrow> (if ok then aw # rest else rest, st2)))"

text \<open>The outer \<^verbatim>\<open>while (!active_w.empty() && k <= limD && k < nbL)\<close>; the result also
  carries the final value of \<open>k\<close> and the final list of active witnesses.\<close>

function construct_loop ::
  "nat \<Rightarrow> int \<Rightarrow> real \<Rightarrow> real list list \<Rightarrow> vertex list list \<Rightarrow> int \<Rightarrow> nat list \<Rightarrow> run_state
     \<Rightarrow> int \<times> nat list \<times> run_state" where
  "construct_loop nbL limD alpha distances knn k active_w st =
     (if active_w \<noteq> [] \<and> k \<le> limD \<and> k < int nbL then
        (case witness_loop k alpha distances knn active_w st of
           (active_w', st') \<Rightarrow> construct_loop nbL limD alpha distances knn (k + 1) active_w' st')
      else (k, active_w, st))"
  by pat_completeness auto
termination
  by (relation "measure (\<lambda>(nbL, limD, alpha, distances, knn, k, active_w, st). nat (int nbL - k))")
     auto

declare construct_loop.simps [simp del]

definition Relaxed_witness_complex ::
  "real list list \<Rightarrow> vertex list list \<Rightarrow> simplicial_complex \<Rightarrow> nat \<Rightarrow> real \<Rightarrow> int \<Rightarrow> run_state" where
  "Relaxed_witness_complex distances knn sc0 nbL alpha limD =
     (let nbW = length knn;
          st0 = init_state (fill_landmarks nbL sc0)
      in case construct_loop nbL limD alpha distances knn 1 [0..<nbW] st0 of
           (k, active_w, st) \<Rightarrow> st\<lparr>sc := set_dimension (sc st) limD\<rparr>)"


subsection \<open>\<^verbatim>\<open>Witness_complex_new\<close>: data\<close>

type_synonym Id_distance_pair = "nat \<times> real"
type_synonym Nearest_landmark_range = "Id_distance_pair list"

text \<open>Modelled from the spec: the classes \<^verbatim>\<open>Active_witness\<close>, \<^verbatim>\<open>Witness_for_simplex\<close> and
  \<^verbatim>\<open>Sib_vertex_pair\<close> are included by \<^verbatim>\<open>Witness_complex_new\<close> but are not part of the
  sources at hand. After the spec, an active witness is its row together with a
  live-reference counter (starting at zero); an entry of the association map is a witness
  with the cursor that produced the simplex (here the suffix of the row that starts at the
  landmark last added) and the reference distance in force there; the map is keyed by the
  canonical sorted vertex tuple of the simplex and is traversed in the order of its keys.
  An element of the \<^verbatim>\<open>std::list\<close> of active witnesses is identified by the index of its
  witness.
\<close>

record active_witness =
  nearest_landmark_range :: Nearest_landmark_range
  counter :: nat

type_synonym ActiveWitnessList = "(nat \<times> active_witness) list"

record witnessed_simplex =
  last_it :: Nearest_landmark_range
  witness :: nat
  limit_distance :: dist

type_synonym Simplex_witness_list_map = "(vertex list \<times> witnessed_simplex list) list"

definition increase :: "nat \<Rightarrow> ActiveWitnessList \<Rightarrow> ActiveWitnessList" where
  "increase w aw_list =
     map (\<lambda>(i, a). if i = w then (i, a\<lparr>counter := counter a + 1\<rparr>) else (i, a)) aw_list"

definition decrease :: "nat \<Rightarrow> ActiveWitnessList \<Rightarrow> ActiveWitnessList" where
  "decrease w aw_list =
     map (\<lambda>(i, a). if i = w then (i, a\<lparr>counter := counter a - 1\<rparr>) else (i, a)) aw_list"

definition counter_of :: "nat \<Rightarrow> ActiveWitnessList \<Rightarrow> nat" where
  "counter_of w aw_list = (case map_of aw_list w of None \<Rightarrow> 0 | Some a \<Rightarrow> counter a)"

definition erase :: "nat \<Rightarrow> ActiveWitnessList \<Rightarrow> ActiveWitnessList" where
  "erase w aw_list = filter (\<lambda>(i, a). i \<noteq> w) aw_list"

text \<open>\<^verbatim>\<open>(*sw_map)[sk].emplace_back(x)\<close> on a \<^verbatim>\<open>std::map\<close>.\<close>

fun map_emplace_back ::
  "vertex list \<Rightarrow> witnessed_simplex \<Rightarrow> Simplex_witness_list_map \<Rightarrow> Simplex_witness_list_map" where
  "map_emplace_back sk x [] = [(sk, [x])]"
| "map_emplace_back sk x ((sk', xs) # m) =
     (if sk = sk' then (sk', xs @ [x]) # m
      else if sk < sk' then (sk, [x]) # (sk', xs) # m
      else (sk', xs) # map_emplace_back sk x m)"

subsection \<open>\<^verbatim>\<open>Witness_complex_new::fill_vertices\<close> and \<^verbatim>\<open>fill_edges\<close>\<close>

text \<open>The first loop of both functions, for one cursor: every admissible landmark of the
  rest of the row is appended to the vertices of the key simplex (none for
  \<^verbatim>\<open>fill_vertices\<close>) and the result is inserted. The guard is
  \<^verbatim>\<open>l_it != end && l_it->second - alpha2 <= norelax_dist2\<close>, and
  \<^verbatim>\<open>filtration_value\<close> is declared outside the loop.\<close>

fun insert_scan ::
  "real \<Rightarrow> vertex list \<Rightarrow> dist \<Rightarrow> real \<Rightarrow> Nearest_landmark_range \<Rightarrow> simplicial_complex
     \<Rightarrow> simplicial_complex" where
  "insert_scan alpha2 vertices norelax_dist2 filtration_value [] c = c"
| "insert_scan alpha2 vertices norelax_dist2 filtration_value ((l, d) # l_it) c =
     (if admissible alpha2 norelax_dist2 d then
        (let fv = (if dist_gt d norelax_dist2 then dist_diff d norelax_dist2
                   else filtration_value);
             nd = (if dist_gt d norelax_dist2 then norelax_dist2 else Finite d)
         in insert_scan alpha2 vertices nd fv l_it (insert_simplex c (vertices @ [int l]) fv))
      else c)"

text \<open>The second loop of both functions, for one cursor: every admissible landmark adds
  an entry to the map under the simplex found and increases the counter of the witness.\<close>

fun record_scan ::
  "real \<Rightarrow> vertex list \<Rightarrow> dist \<Rightarrow> nat \<Rightarrow> Nearest_landmark_range
     \<Rightarrow> ActiveWitnessList \<times> Simplex_witness_list_map
     \<Rightarrow> ActiveWitnessList \<times> Simplex_witness_list_map" where
  "record_scan alpha2 vertices norelax_dist2 w [] (aw_list, sw_map) = (aw_list, sw_map)"
| "record_scan alpha2 vertices norelax_dist2 w ((l, d) # l_it) (aw_list, sw_map) =
     (if admissible alpha2 norelax_dist2 d then
        record_scan alpha2 vertices (norelax_leaf d norelax_dist2) w l_it
          (increase w aw_list,
           map_emplace_back (sort (vertices @ [int l]))
             \<lparr>last_it = (l, d) # l_it, witness = w, limit_distance = norelax_dist2\<rparr> sw_map)
      else (aw_list, sw_map))"

definition fill_vertices ::
  "real \<Rightarrow> simplicial_complex \<Rightarrow> ActiveWitnessList \<Rightarrow> Simplex_witness_list_map
     \<Rightarrow> simplicial_complex \<times> ActiveWitnessList \<times> Simplex_witness_list_map" where
  "fill_vertices alpha2 c aw_list sw_map =
     (let c' = fold (\<lambda>(w, a) c1. insert_scan alpha2 [] Infinity 0 (nearest_landmark_range a) c1)
                 aw_list c;
          (aw_list', sw_map') =
             fold (\<lambda>(w, a) r. record_scan alpha2 [] Infinity w (nearest_landmark_range a) r)
               aw_list (aw_list, sw_map)
      in (c', aw_list', sw_map'))"

text \<open>\<^verbatim>\<open>l_it = w.last_it_; if (l_it != end) l_it++;\<close>\<close>

definition next_it :: "Nearest_landmark_range \<Rightarrow> Nearest_landmark_range" where
  "next_it l_it = (case l_it of [] \<Rightarrow> [] | x # rest \<Rightarrow> rest)"

text \<open>The end of the second loop of \<^verbatim>\<open>fill_edges\<close> for one entry:
  \<^verbatim>\<open>w.witness_->decrease(); if (w.witness_->counter() == 0) aw_list.erase(w.witness_);\<close>\<close>

definition release :: "nat \<Rightarrow> ActiveWitnessList \<Rightarrow> ActiveWitnessList" where
  "release w aw_list =
     (let aw_list' = decrease w aw_list
      in if counter_of w aw_list' = 0 then erase w aw_list' else aw_list')"

definition fill_edges ::
  "real \<Rightarrow> simplicial_complex \<Rightarrow> ActiveWitnessList \<Rightarrow> Simplex_witness_list_map
     \<Rightarrow> Simplex_witness_list_map
     \<Rightarrow> simplicial_complex \<times> ActiveWitnessList \<times> Simplex_witness_list_map" where
  "fill_edges alpha2 c aw_list dim0_map dim1_map =
     (let c' = fold (\<lambda>(sk, ws) c1.
                   fold (\<lambda>w c2. insert_scan alpha2 (rev sk) (limit_distance w) 0
                                  (next_it (last_it w)) c2) ws c1)
                 dim0_map c;
          (aw_list', dim1_map') =
             fold (\<lambda>(sk, ws) r.
                   fold (\<lambda>w r1.
                          (case record_scan alpha2 (rev sk) (limit_distance w) (witness w)
                                  (next_it (last_it w)) r1 of
                             (aw1, m1) \<Rightarrow> (release (witness w) aw1, m1))) ws r)
               dim0_map (aw_list, dim1_map)
      in (c', aw_list', dim1_map'))"

subsection \<open>\<^verbatim>\<open>Witness_complex_new::fill_simplices\<close> and \<^verbatim>\<open>create_complex\<close>\<close>

text \<open>The body of \<^verbatim>\<open>fill_simplices\<close> walks the simplices of the previous dimension and
  prints the cofaces that \<^verbatim>\<open>check_if_neighbors\<close> reports; the code that would fill the map
  and insert simplices is commented out. The complex, the list of active witnesses and the
  map of the current dimension are left as they are.\<close>

definition fill_simplices ::
  "real \<Rightarrow> nat \<Rightarrow> simplicial_complex \<Rightarrow> ActiveWitnessList \<Rightarrow> Simplex_witness_list_map
     \<Rightarrow> Simplex_witness_list_map
     \<Rightarrow> simplicial_complex \<times> ActiveWitnessList \<times> Simplex_witness_list_map" where
  "fill_simplices alpha2 k c aw_list prev_dim_map curr_dim_map = (c, aw_list, curr_dim_map)"

text \<open>\<^verbatim>\<open>while (!active_witnesses.empty() && k <= 2)\<close>\<close>

function simplices_loop ::
  "real \<Rightarrow> nat \<Rightarrow> simplicial_complex \<Rightarrow> ActiveWitnessList \<Rightarrow> Simplex_witness_list_map
     \<Rightarrow> nat \<times> simplicial_complex \<times> ActiveWitnessList" where
  "simplices_loop alpha2 k c active_witnesses prev_dim_map =
     (if active_witnesses \<noteq> [] \<and> k \<le> 2 then
        (case fill_simplices alpha2 k c active_witnesses prev_dim_map [] of
           (c', aw', curr_dim_map) \<Rightarrow> simplices_loop alpha2 (k + 1) c' aw' curr_dim_map)
      else (k, c, active_witnesses))"
  by pat_completeness auto
termination
  by (relation "measure (\<lambda>(alpha2, k, c, aw, m). 3 - k)") auto

declare simplices_loop.simps [simp del]

text \<open>\<^verbatim>\<open>limit_dimension\<close> is a \<^verbatim>\<open>std::size_t\<close>, here a 64-bit word; the result is the
  returned flag and the complex.\<close>

definition create_complex ::
  "Nearest_landmark_range list \<Rightarrow> simplicial_complex \<Rightarrow> real \<Rightarrow> 64 word
     \<Rightarrow> bool \<times> simplicial_complex" where
  "create_complex nearest_landmark_table c max_alpha_square limit_dimension =
     (if num_vertices c > 0 then (False, c)
      else if max_alpha_square < 0 then (False, c)
      else if limit_dimension < 0 then (False, c)
      else
        (let active_witnesses =
               map (\<lambda>(w, r). (w, \<lparr>nearest_landmark_range = r, counter = 0\<rparr>))
                 (zip [0..<length nearest_landmark_table] nearest_landmark_table)
         in case fill_vertices max_alpha_square c active_witnesses [] of
              (c1, aw1, prev_dim_map) \<Rightarrow>
                (case fill_edges max_alpha_square c1 aw1 prev_dim_map [] of
                   (c2, aw2, dim1_map) \<Rightarrow>
                     (case simplices_loop max_alpha_square 2 c2 aw2 dim1_map of
                        (k, c3, aw3) \<Rightarrow> (True, set_dimension c3 (int k - 1))))))"

subsection \<open>\<^verbatim>\<open>Witness_complex_new::add_all_faces_of_dimension\<close>\<close>

text \<open>The second implementation walks one range of pairs; its guard is
  \<^verbatim>\<open>l_it->second - alpha2 <= norelax_dist2 && l_it != end\<close>, and its second recursive call
  keeps \<^verbatim>\<open>dim\<close>. The free function \<^verbatim>\<open>all_faces_in(simplex, &filtration_value, sc)\<close> it
  calls is taken to be the member function of \<^verbatim>\<open>Relaxed_witness_complex\<close>.\<close>

fun scan_leaf_new ::
  "real \<Rightarrow> dist \<Rightarrow> Nearest_landmark_range \<Rightarrow> simplex \<Rightarrow> bool \<Rightarrow> run_state
     \<Rightarrow> bool \<times> run_state" where
  "scan_leaf_new alpha2 norelax_dist2 [] simplex will_be_active st =
     (will_be_active, st\<lparr>oob_read := True\<rparr>)"
| "scan_leaf_new alpha2 norelax_dist2 ((l, d) # l_it) simplex will_be_active st =
     (if admissible alpha2 norelax_dist2 d then
        (case leaf_visit norelax_dist2 d (simplex @ [int l]) will_be_active st of
           (wba1, st1) \<Rightarrow>
             scan_leaf_new alpha2 (norelax_leaf d norelax_dist2) l_it simplex wba1 st1)
      else (will_be_active, st))"

fun add_all_faces_of_dimension_new ::
      "int \<Rightarrow> real \<Rightarrow> dist \<Rightarrow> Nearest_landmark_range \<Rightarrow> simplex \<Rightarrow> run_state
         \<Rightarrow> bool \<times> run_state"
  and scan_inner_new ::
      "int \<Rightarrow> real \<Rightarrow> dist \<Rightarrow> Nearest_landmark_range \<Rightarrow> simplex \<Rightarrow> bool \<Rightarrow> run_state
         \<Rightarrow> bool \<times> run_state" where
  "add_all_faces_of_dimension_new dm alpha2 norelax_dist2 [] simplex st =
     (False, leave (enter st))"
| "add_all_faces_of_dimension_new dm alpha2 norelax_dist2 (p # curr_l) simplex st =
     (case (if dm > 0 then scan_inner_new dm alpha2 norelax_dist2 (p # curr_l) simplex False (enter st)
            else if dm = 0 then scan_leaf_new alpha2 norelax_dist2 (p # curr_l) simplex False (enter st)
            else (False, enter st)) of
        (will_be_active, st') \<Rightarrow> (will_be_active, leave st'))"
| "scan_inner_new dm alpha2 norelax_dist2 [] simplex will_be_active st =
     (will_be_active, st\<lparr>oob_read := True\<rparr>)"
| "scan_inner_new dm alpha2 norelax_dist2 ((l, d) # l_it) simplex will_be_active st =
     (if admissible alpha2 norelax_dist2 d then
        (case (if find_simplex (sc st) (simplex @ [int l]) \<noteq> None
               then (case add_all_faces_of_dimension_new (dm - 1) alpha2 norelax_dist2 l_it
                            (simplex @ [int l]) st of
                       (r, st') \<Rightarrow> (r \<or> will_be_active, st'))
               else (will_be_active, st)) of
           (wba1, st1) \<Rightarrow>
             (case add_all_faces_of_dimension_new dm alpha2 (norelax_inner d norelax_dist2)
                     l_it simplex st1 of
                (r2, st2) \<Rightarrow>
                  scan_inner_new dm alpha2 (norelax_inner d norelax_dist2) l_it simplex
                    (r2 \<or> wba1) st2))
      else (will_be_active, st))"


subsection \<open>Predicates of the statements\<close>

text \<open>A complex is closed when every stored simplex with at least two vertices has all its
  facets stored; it is facet-monotone when, in addition, the value recorded for a facet is
  at most the value recorded for the simplex.\<close>

definition closed_complex :: "simplicial_complex \<Rightarrow> bool" where
  "closed_complex c \<longleftrightarrow>
     (\<forall>s i. find_simplex c s \<noteq> None \<and> 2 \<le> length s \<and> i < length s
        \<longrightarrow> find_simplex c (facet s i) \<noteq> None)"

definition facet_monotone :: "simplicial_complex \<Rightarrow> bool" where
  "facet_monotone c \<longleftrightarrow>
     (\<forall>s f i. find_simplex c s = Some f \<and> 2 \<le> length s \<and> i < length s
        \<longrightarrow> (\<exists>g. find_simplex c (facet s i) = Some g \<and> g \<le> f))"

text \<open>The rule of the spec for the reference distance after a landmark at distance \<open>d\<close> has
  been processed: it becomes \<open>d\<close> when \<open>d \<le> norelax_dist\<close> and stays otherwise.\<close>

definition spec_norelax_update :: "real \<Rightarrow> dist \<Rightarrow> dist" where
  "spec_norelax_update d norelax_dist =
     (if dist_le d norelax_dist then Finite d else norelax_dist)"

text \<open>The bound the closure oracle returns for a candidate: the maximum of the filtration
  values recorded for its facets.\<close>

definition closure_bound :: "simplicial_complex \<Rightarrow> simplex \<Rightarrow> real" where
  "closure_bound c cand =
     Max ((\<lambda>i. the (find_simplex c (facet cand i))) ` {..<length cand})"

text \<open>\<open>max(0, d - norelax_dist)\<close> of the spec, where \<open>d - \<infinity> = - \<infinity>\<close>.\<close>

definition relaxation_cost :: "real \<Rightarrow> dist \<Rightarrow> real" where
  "relaxation_cost d norelax_dist =
     (case norelax_dist of Infinity \<Rightarrow> 0 | Finite y \<Rightarrow> max 0 (d - y))"

text \<open>Every distance of the row passes the first conjunct of the guard when the loop
  reaches it; the reference distance moves as it does in the loops.\<close>

fun all_admissible :: "real \<Rightarrow> dist \<Rightarrow> real list \<Rightarrow> bool" where
  "all_admissible alpha norelax_dist [] = True"
| "all_admissible alpha norelax_dist (d # ds) =
     (admissible alpha norelax_dist d \<and> all_admissible alpha (norelax_inner d norelax_dist) ds)"

text \<open>Every simplex of the first complex is a simplex of the second.\<close>

definition sub_complex :: "simplicial_complex \<Rightarrow> simplicial_complex \<Rightarrow> bool" where
  "sub_complex c1 c2 \<longleftrightarrow> (\<forall>t. find_simplex c1 t \<noteq> None \<longrightarrow> find_simplex c2 t \<noteq> None)"

text \<open>The result of a call in the second run covers the result of the same call in the
  first run: a larger complex, and an active result whenever the first is active.\<close>

definition simulates :: "bool \<times> run_state \<Rightarrow> bool \<times> run_state \<Rightarrow> bool" where
  "simulates r1 r2 \<longleftrightarrow> sub_complex (sc (snd r1)) (sc (snd r2)) \<and> (fst r1 \<longrightarrow> fst r2)"

section \<open>Properties\<close>

subsection \<open>Container lemmas\<close>

lemma sort_cong_mset: "mset s = mset t \<Longrightarrow> sort s = sort (t :: int list)"
  by (metis mset_sort properties_for_sort sorted_sort)

lemma find_simplex_mset: "mset s = mset t \<Longrightarrow> find_simplex c s = find_simplex c t"
  using sort_cong_mset[of s t] by (auto simp: find_simplex_def)

lemma find_insert_absent:
  assumes "s \<noteq> []" "find_simplex c s = None"
  shows "find_simplex (insert_simplex c s fv) t =
     (case find_simplex c t of Some f \<Rightarrow> Some f
      | None \<Rightarrow> if t \<noteq> [] \<and> sort t = sort s then Some fv else None)"
proof (cases "t = []")
  case True
  then show ?thesis by (simp add: find_simplex_def)
next
  case False
  have "simplices (insert_simplex c s fv) = simplices c @ [(sort s, fv)]"
    using assms by (simp add: insert_simplex_def)
  then show ?thesis using False
    by (simp add: find_simplex_def map_add_def split: option.splits)
qed

lemma insert_present: "s = [] \<or> find_simplex c s \<noteq> None \<Longrightarrow> insert_simplex c s fv = c"
  by (simp add: insert_simplex_def)

lemma find_insert_old:
  "find_simplex c t = Some f \<Longrightarrow> find_simplex (insert_simplex c s fv) t = Some f"
proof (cases "s = [] \<or> find_simplex c s \<noteq> None")
  case True
  assume "find_simplex c t = Some f"
  then show ?thesis using insert_present[OF True] by simp
next
  case False
  assume "find_simplex c t = Some f"
  then show ?thesis using False find_insert_absent[of s c fv t] by simp
qed

lemma find_insert_new:
  assumes "find_simplex (insert_simplex c s fv) t = Some f" "find_simplex c t = None"
  shows "s \<noteq> [] \<and> t \<noteq> [] \<and> sort t = sort s \<and> f = fv"
proof (cases "s = [] \<or> find_simplex c s \<noteq> None")
  case True
  then show ?thesis using assms insert_present[OF True, of fv] by simp
next
  case False
  then show ?thesis using assms find_insert_absent[of s c fv t] by (simp split: if_splits)
qed

lemma find_insert_self:
  "s \<noteq> [] \<Longrightarrow> find_simplex (insert_simplex c s fv) s \<noteq> None"
proof (cases "find_simplex c s = None")
  case True
  assume "s \<noteq> []"
  then show ?thesis using True find_insert_absent[of s c fv s] by simp
next
  case False
  then show ?thesis using insert_present[of s c fv] by simp
qed

lemma mset_facet: "i < length s \<Longrightarrow> mset (facet s i) = mset s - {#s ! i#}"
proof -
  assume a: "i < length s"
  have "mset (take i s @ s ! i # drop (Suc i) s) = mset s"
    using id_take_nth_drop[OF a] by simp
  then have "mset s = add_mset (s ! i) (mset (take i s) + mset (drop (Suc i) s))"
    by simp
  then show ?thesis by (simp add: facet_def)
qed

lemma length_facet: "i < length s \<Longrightarrow> length (facet s i) = length s - 1"
  by (auto simp: facet_def)

lemma facet_perm:
  assumes "mset s = mset t" "i < length s"
  shows "\<exists>j<length t. mset (facet t j) = mset (facet s i)"
proof -
  have "s ! i \<in> set t" using assms by (metis nth_mem set_mset_mset)
  then obtain j where j: "j < length t" "t ! j = s ! i" by (auto simp: in_set_conv_nth)
  then have "mset (facet t j) = mset (facet s i)" using assms by (simp add: mset_facet)
  with j show ?thesis by blast
qed

subsection \<open>all\_faces\_in\<close>

lemma all_faces_in_loop_True:
  "all_faces_in_loop c s is fv0 = (True, fv) \<Longrightarrow>
     (\<forall>i\<in>set is. \<exists>f. find_simplex c (facet s i) = Some f \<and> f \<le> fv) \<and> fv0 \<le> fv"
proof (induction "is" arbitrary: fv0)
  case Nil
  then show ?case by simp
next
  case (Cons i "is")
  then obtain f where f: "find_simplex c (facet s i) = Some f"
    by (auto split: option.splits)
  with Cons.prems have "all_faces_in_loop c s is (if f > fv0 then f else fv0) = (True, fv)"
    by simp
  from Cons.IH[OF this] f show ?case by (auto split: if_splits)
qed

lemma all_faces_in_True:
  "all_faces_in c s fv0 = (True, fv) \<Longrightarrow>
     (\<forall>i<length s. \<exists>f. find_simplex c (facet s i) = Some f \<and> f \<le> fv) \<and> fv0 \<le> fv"
  using all_faces_in_loop_True[of c s "[0..<length s]" fv0 fv] by (simp add: all_faces_in_def)

lemma all_faces_in_loop_present:
  "(\<forall>i\<in>set is. find_simplex c (facet s i) \<noteq> None) \<Longrightarrow> fst (all_faces_in_loop c s is fv0)"
  by (induction "is" arbitrary: fv0) (auto split: option.splits)

lemma all_faces_in_present:
  "(\<forall>i<length s. find_simplex c (facet s i) \<noteq> None) \<Longrightarrow> fst (all_faces_in c s fv0)"
  using all_faces_in_loop_present[of "[0..<length s]" c s fv0] by (simp add: all_faces_in_def)

subsection \<open>Invariants of the complex\<close>

lemma sc_enter [simp]: "sc (enter st) = sc st" by (simp add: enter_def)
lemma sc_leave [simp]: "sc (leave st) = sc st" by (simp add: leave_def)

lemma leaf_visit_inv:
  assumes step: "\<And>c cand fv0 fv. I c \<Longrightarrow> all_faces_in c cand fv0 = (True, fv) \<Longrightarrow> I (insert_simplex c cand fv)"
  shows "I (sc st) \<Longrightarrow> I (sc (snd (leaf_visit nd d cand wba st)))"
  by (auto simp: leaf_visit_def split: prod.splits bool.splits intro: step)

lemma scan_leaf_inv:
  assumes step: "\<And>c cand fv0 fv. I c \<Longrightarrow> all_faces_in c cand fv0 = (True, fv) \<Longrightarrow> I (insert_simplex c cand fv)"
  shows "I (sc st) \<Longrightarrow> I (sc (snd (scan_leaf alpha nd ds ls simplex wba st)))"
proof (induction alpha nd ds ls simplex wba st rule: scan_leaf.induct)
  case (3 alpha nd d ds l ls simplex wba st)
  show ?case
  proof (cases "admissible alpha nd d")
    case True
    obtain wba1 st1 where lv: "leaf_visit nd d (simplex @ [l]) wba st = (wba1, st1)"
      by (cases "leaf_visit nd d (simplex @ [l]) wba st")
    have "I (sc st1)" using leaf_visit_inv[of I st nd d "simplex @ [l]" wba, OF step "3.prems"] lv by simp
    from "3.IH"[OF True lv[symmetric] this] show ?thesis using True lv by simp
  next
    case False
    then show ?thesis using "3.prems" by simp
  qed
qed simp_all

subsection \<open>Unfolding and induction for the recursion\<close>

lemma scan_inner_Cons:
  "scan_inner dm alpha nd (d # ds) (l # ls) simplex wba st =
     (if admissible alpha nd d then
        scan_inner dm alpha (norelax_inner d nd) ds ls simplex
          (fst (add_all_faces_of_dimension (dm - 1) alpha (norelax_inner d nd) ds ls simplex
                  (snd (include_call dm alpha nd ds ls simplex l wba st)))
           \<or> fst (include_call dm alpha nd ds ls simplex l wba st))
          (snd (add_all_faces_of_dimension (dm - 1) alpha (norelax_inner d nd) ds ls simplex
                  (snd (include_call dm alpha nd ds ls simplex l wba st))))
      else (wba, st))"
  by (simp add: include_call_def case_prod_beta)

lemma scan_leaf_Cons:
  "scan_leaf alpha nd (d # ds) (l # ls) simplex wba st =
     (if admissible alpha nd d then
        scan_leaf alpha (norelax_leaf d nd) ds ls simplex
          (fst (leaf_visit nd d (simplex @ [l]) wba st))
          (snd (leaf_visit nd d (simplex @ [l]) wba st))
      else (wba, st))"
  by (simp add: case_prod_beta)

lemma add_all_Cons:
  "add_all_faces_of_dimension dm alpha nd ds (l # ls) simplex st =
     (if dm > 0 then
        (fst (scan_inner dm alpha nd ds (l # ls) simplex False (enter st)),
         leave (snd (scan_inner dm alpha nd ds (l # ls) simplex False (enter st))))
      else if dm = 0 then
        (fst (scan_leaf alpha nd ds (l # ls) simplex False (enter st)),
         leave (snd (scan_leaf alpha nd ds (l # ls) simplex False (enter st))))
      else (False, leave (enter st)))"
  by (simp add: case_prod_beta)

lemma add_all_scan_induct [case_names empty call oob exhausted step skip]:
  assumes "\<And>dm alpha nd ds simplex st. P dm alpha nd ds [] simplex st"
    and "\<And>dm alpha nd ds l ls simplex st.
           (0 < dm \<Longrightarrow> Q dm alpha nd ds (l # ls) simplex False (enter st)) \<Longrightarrow>
           P dm alpha nd ds (l # ls) simplex st"
    and "\<And>dm alpha nd ls simplex wba st. Q dm alpha nd [] ls simplex wba st"
    and "\<And>dm alpha nd d ds simplex wba st. Q dm alpha nd (d # ds) [] simplex wba st"
    and "\<And>dm alpha nd d ds l ls simplex wba st a b.
           admissible alpha nd d \<Longrightarrow>
           a = include_call dm alpha nd ds ls simplex l wba st \<Longrightarrow>
           b = add_all_faces_of_dimension (dm - 1) alpha (norelax_inner d nd) ds ls simplex (snd a) \<Longrightarrow>
           (find_simplex (sc st) (simplex @ [l]) \<noteq> None \<Longrightarrow>
              P (dm - 1) alpha nd ds ls (simplex @ [l]) st) \<Longrightarrow>
           P (dm - 1) alpha (norelax_inner d nd) ds ls simplex (snd a) \<Longrightarrow>
           Q dm alpha (norelax_inner d nd) ds ls simplex (fst b \<or> fst a) (snd b) \<Longrightarrow>
           Q dm alpha nd (d # ds) (l # ls) simplex wba st"
    and "\<And>dm alpha nd d ds l ls simplex wba st.
           \<not> admissible alpha nd d \<Longrightarrow> Q dm alpha nd (d # ds) (l # ls) simplex wba st"
  shows "P dm alpha nd ds ls simplex st" and "Q dm alpha nd ds ls simplex wba st"
proof (induction dm alpha nd ds ls simplex st and dm alpha nd ds ls simplex wba st
       rule: add_all_faces_of_dimension_scan_inner.induct)
  case (1 dm alpha nd ds simplex st)
  show ?case by (rule assms(1))
next
  case (2 dm alpha nd ds l ls simplex st)
  show ?case by (rule assms(2)) (rule "2.IH")
next
  case (3 dm alpha nd ls simplex wba st)
  show ?case by (rule assms(3))
next
  case (4 dm alpha nd d ds simplex wba st)
  show ?case by (rule assms(4))
next
  case (5 dm alpha nd d ds l ls simplex wba st)
  show ?case
  proof (cases "admissible alpha nd d")
    case False
    then show ?thesis by (rule assms(6))
  next
    case True
    define a where "a = include_call dm alpha nd ds ls simplex l wba st"
    define b where "b = add_all_faces_of_dimension (dm - 1) alpha (norelax_inner d nd) ds ls simplex (snd a)"
    have a_eq: "(fst a, snd a) = (if find_simplex (sc st) (simplex @ [l]) \<noteq> None
               then (case add_all_faces_of_dimension (dm - 1) alpha nd ds ls (simplex @ [l]) st of
                       (r, st') \<Rightarrow> (r \<or> wba, st'))
               else (wba, st))"
      by (simp add: a_def include_call_def)
    have b_eq: "(fst b, snd b) = add_all_faces_of_dimension (dm - 1) alpha (norelax_inner d nd) ds ls simplex (snd a)"
      by (simp add: b_def)
    show ?thesis
    proof (rule assms(5)[OF True a_def b_def])
      show "find_simplex (sc st) (simplex @ [l]) \<noteq> None \<Longrightarrow> P (dm - 1) alpha nd ds ls (simplex @ [l]) st"
        by (rule "5.IH"(1)[OF True])
      show "P (dm - 1) alpha (norelax_inner d nd) ds ls simplex (snd a)"
        by (rule "5.IH"(2)[OF True a_eq])
      show "Q dm alpha (norelax_inner d nd) ds ls simplex (fst b \<or> fst a) (snd b)"
        by (rule "5.IH"(3)[OF True a_eq b_eq])
    qed
  qed
qed

lemma add_all_inv:
  assumes step: "\<And>c cand fv0 fv. I c \<Longrightarrow> all_faces_in c cand fv0 = (True, fv) \<Longrightarrow> I (insert_simplex c cand fv)"
  shows "I (sc st) \<Longrightarrow> I (sc (snd (add_all_faces_of_dimension dm alpha nd ds ls simplex st)))"
    and "I (sc st) \<Longrightarrow> I (sc (snd (scan_inner dm alpha nd ds ls simplex wba st)))"
proof (induction dm alpha nd ds ls simplex st and dm alpha nd ds ls simplex wba st
       rule: add_all_scan_induct)
  case (empty dm alpha nd ds simplex st)
  then show ?case by simp
next
  case (call dm alpha nd ds l ls simplex st)
  then show ?case
    using scan_leaf_inv[of I "enter st" alpha nd ds "l # ls" simplex False, OF step]
    by (simp add: add_all_Cons del: add_all_faces_of_dimension.simps)
next
  case (oob dm alpha nd ls simplex wba st)
  then show ?case by simp
next
  case (exhausted dm alpha nd d ds simplex wba st)
  then show ?case by simp
next
  case (step dm alpha nd d ds l ls simplex wba st a b)
  have "I (sc (snd a))" using step.IH(1) step.prems
    by (simp add: step.hyps(2) include_call_def case_prod_beta)
  then have "I (sc (snd b))" using step.IH(2) by (simp add: step.hyps(3))
  then have "I (sc (snd (scan_inner dm alpha (norelax_inner d nd) ds ls simplex (fst b \<or> fst a) (snd b))))"
    by (rule step.IH(3))
  then show ?case using step.hyps
    by (simp add: scan_inner_Cons del: scan_inner.simps)
next
  case (skip dm alpha nd d ds l ls simplex wba st)
  then show ?case by simp
qed

lemma witness_loop_inv:
  assumes step: "\<And>c cand fv0 fv. I c \<Longrightarrow> all_faces_in c cand fv0 = (True, fv) \<Longrightarrow> I (insert_simplex c cand fv)"
  shows "I (sc st) \<Longrightarrow> I (sc (snd (witness_loop k alpha distances knn active_w st)))"
proof (induction active_w arbitrary: st)
  case Nil
  then show ?case by simp
next
  case (Cons aw active_w)
  have "I (sc (snd (add_all_faces_of_dimension k alpha Infinity (row distances aw) (row knn aw) [] st)))"
    using add_all_inv(1)[where I = I, OF step Cons.prems] .
  from Cons.IH[OF this] show ?case by (simp add: case_prod_beta)
qed

lemma construct_loop_stop:
  "\<not> (active_w \<noteq> [] \<and> k \<le> limD \<and> k < int nbL) \<Longrightarrow>
     construct_loop nbL limD alpha distances knn k active_w st = (k, active_w, st)"
  by (subst construct_loop.simps) (rule if_not_P)

lemma construct_loop_step:
  "active_w \<noteq> [] \<and> k \<le> limD \<and> k < int nbL \<Longrightarrow>
     construct_loop nbL limD alpha distances knn k active_w st =
       construct_loop nbL limD alpha distances knn (k + 1)
         (fst (witness_loop k alpha distances knn active_w st))
         (snd (witness_loop k alpha distances knn active_w st))"
  by (subst construct_loop.simps) (simp add: case_prod_beta)

lemma construct_loop_inv:
  assumes step: "\<And>c cand fv0 fv. I c \<Longrightarrow> all_faces_in c cand fv0 = (True, fv) \<Longrightarrow> I (insert_simplex c cand fv)"
  shows "I (sc st) \<Longrightarrow>
         I (sc (snd (snd (construct_loop nbL limD alpha distances knn k active_w st))))"
proof (induction nbL limD alpha distances knn k active_w st rule: construct_loop.induct)
  case (1 nbL limD alpha distances knn k active_w st)
  show ?case
  proof (cases "active_w \<noteq> [] \<and> k \<le> limD \<and> k < int nbL")
    case True
    have "I (sc (snd (witness_loop k alpha distances knn active_w st)))"
      using witness_loop_inv[where I = I, OF step "1.prems"] .
    from "1.IH"[OF True prod.collapse this] show ?thesis
      by (simp add: construct_loop_step[OF True])
  next
    case False
    then show ?thesis using "1.prems" by (simp add: construct_loop_stop)
  qed
qed

lemma fill_landmarks_inv:
  assumes vstep: "\<And>c v. I c \<Longrightarrow> I (insert_simplex c [v] 0)"
  shows "I c \<Longrightarrow> I (fill_landmarks nbL c)"
  unfolding fill_landmarks_def
  by (induction nbL) (auto intro: vstep)

lemma find_simplex_set_dimension [simp]:
  "find_simplex (set_dimension c d) s = find_simplex c s"
  by (simp add: find_simplex_def set_dimension_def)

lemma sc_Relaxed:
  "sc (Relaxed_witness_complex distances knn sc0 nbL alpha limD) =
     set_dimension
       (sc (snd (snd (construct_loop nbL limD alpha distances knn 1 [0..<length knn]
                        (init_state (fill_landmarks nbL sc0))))))
       limD"
  by (simp add: Relaxed_witness_complex_def case_prod_beta Let_def)

lemma sc_init_state [simp]: "sc (init_state c) = c"
  by (simp add: init_state_def)

lemma Relaxed_inv:
  assumes step: "\<And>c cand fv0 fv. I c \<Longrightarrow> all_faces_in c cand fv0 = (True, fv) \<Longrightarrow> I (insert_simplex c cand fv)"
    and vstep: "\<And>c v. I c \<Longrightarrow> I (insert_simplex c [v] 0)"
    and dstep: "\<And>c d. I c \<Longrightarrow> I (set_dimension c d)"
  shows "I sc0 \<Longrightarrow> I (sc (Relaxed_witness_complex distances knn sc0 nbL alpha limD))"
proof -
  assume "I sc0"
  then have "I (fill_landmarks nbL sc0)"
    by (rule fill_landmarks_inv[where I = I, rotated]) (rule vstep)
  then have "I (sc (init_state (fill_landmarks nbL sc0)))" by simp
  have "I (sc (snd (snd (construct_loop nbL limD alpha distances knn 1 [0..<length knn]
                        (init_state (fill_landmarks nbL sc0))))))"
  proof (rule construct_loop_inv[where I = I])
    show "\<And>c cand fv0 fv. I c \<Longrightarrow> all_faces_in c cand fv0 = (True, fv) \<Longrightarrow> I (insert_simplex c cand fv)"
      by (rule step)
    show "I (sc (init_state (fill_landmarks nbL sc0)))" by fact
  qed
  then show ?thesis unfolding sc_Relaxed by (rule dstep)
qed

subsection \<open>Closure and monotonicity are invariants\<close>

lemma new_simplex_perm:
  assumes "find_simplex (insert_simplex c cand fv) s = Some f" "find_simplex c s = None"
  shows "mset s = mset cand \<and> f = fv"
proof -
  from find_insert_new[OF assms] have "sort s = sort cand" "f = fv" by auto
  then show ?thesis by (metis mset_sort)
qed

lemma closed_step:
  assumes "closed_complex c" "all_faces_in c cand fv0 = (True, fv)"
  shows "closed_complex (insert_simplex c cand fv)"
  unfolding closed_complex_def
proof (intro allI impI, elim conjE)
  fix s i
  assume s: "find_simplex (insert_simplex c cand fv) s \<noteq> None" "2 \<le> length s" "i < length s"
  have "find_simplex c (facet s i) \<noteq> None"
  proof (cases "find_simplex c s")
    case (Some f)
    then show ?thesis using assms(1) s by (auto simp: closed_complex_def)
  next
    case None
    from s(1) obtain f where "find_simplex (insert_simplex c cand fv) s = Some f" by auto
    from new_simplex_perm[OF this None] have "mset cand = mset s" by simp
    from facet_perm[OF this[symmetric] s(3)] obtain j where
      j: "j < length cand" "mset (facet cand j) = mset (facet s i)" by blast
    from all_faces_in_True[OF assms(2)] j(1) have "find_simplex c (facet cand j) \<noteq> None" by auto
    then show ?thesis using find_simplex_mset[OF j(2), of c] by simp
  qed
  then show "find_simplex (insert_simplex c cand fv) (facet s i) \<noteq> None"
    using find_insert_old[of c "facet s i" _ cand fv] by auto
qed

lemma facet_monotone_step:
  assumes "facet_monotone c" "all_faces_in c cand fv0 = (True, fv)"
  shows "facet_monotone (insert_simplex c cand fv)"
  unfolding facet_monotone_def
proof (intro allI impI, elim conjE)
  fix s f i
  assume s: "find_simplex (insert_simplex c cand fv) s = Some f" "2 \<le> length s" "i < length s"
  have "\<exists>g. find_simplex c (facet s i) = Some g \<and> g \<le> f"
  proof (cases "find_simplex c s")
    case (Some f')
    then have "f' = f" using find_insert_old[OF Some, of cand fv] s(1) by simp
    then show ?thesis using assms(1) s Some unfolding facet_monotone_def by blast
  next
    case None
    from new_simplex_perm[OF s(1) None] have m: "mset s = mset cand" and f: "f = fv" by auto
    from facet_perm[OF m s(3)] obtain j where
      j: "j < length cand" "mset (facet cand j) = mset (facet s i)" by blast
    from all_faces_in_True[OF assms(2)] j(1) obtain g where
      "find_simplex c (facet cand j) = Some g" "g \<le> fv" by blast
    then show ?thesis using find_simplex_mset[OF j(2), of c] f by auto
  qed
  then show "\<exists>g. find_simplex (insert_simplex c cand fv) (facet s i) = Some g \<and> g \<le> f"
    using find_insert_old[of c "facet s i" _ cand fv] by blast
qed

lemma new_vertex_short:
  assumes "find_simplex (insert_simplex c [v] fv) s \<noteq> None" "find_simplex c s = None"
  shows "length s = 1"
proof -
  from assms(1) obtain f where "find_simplex (insert_simplex c [v] fv) s = Some f" by auto
  from new_simplex_perm[OF this assms(2)] have "mset s = mset [v]" by simp
  then have "size (mset s) = size (mset [v])" by simp
  then show ?thesis by simp
qed

lemma closed_vertex: "closed_complex c \<Longrightarrow> closed_complex (insert_simplex c [v] 0)"
  unfolding closed_complex_def
proof (intro allI impI, elim conjE)
  fix s i
  assume c: "\<forall>s i. find_simplex c s \<noteq> None \<and> 2 \<le> length s \<and> i < length s
        \<longrightarrow> find_simplex c (facet s i) \<noteq> None"
    and s: "find_simplex (insert_simplex c [v] 0) s \<noteq> None" "2 \<le> length s" "i < length s"
  have "find_simplex c s \<noteq> None" using new_vertex_short[OF s(1)] s(2) by auto
  with c s have "find_simplex c (facet s i) \<noteq> None" by blast
  then show "find_simplex (insert_simplex c [v] 0) (facet s i) \<noteq> None"
    using find_insert_old[of c "facet s i" _ "[v]" 0] by auto
qed

lemma facet_monotone_vertex: "facet_monotone c \<Longrightarrow> facet_monotone (insert_simplex c [v] 0)"
  unfolding facet_monotone_def
proof (intro allI impI, elim conjE)
  fix s f i
  assume c: "\<forall>s f i. find_simplex c s = Some f \<and> 2 \<le> length s \<and> i < length s
        \<longrightarrow> (\<exists>g. find_simplex c (facet s i) = Some g \<and> g \<le> f)"
    and s: "find_simplex (insert_simplex c [v] 0) s = Some f" "2 \<le> length s" "i < length s"
  have "find_simplex c s \<noteq> None" using new_vertex_short[of c v 0 s] s by auto
  then obtain f' where f': "find_simplex c s = Some f'" by auto
  then have "f' = f" using find_insert_old[OF f', of "[v]" 0] s(1) by simp
  with c s f' obtain g where "find_simplex c (facet s i) = Some g" "g \<le> f" by blast
  then show "\<exists>g. find_simplex (insert_simplex c [v] 0) (facet s i) = Some g \<and> g \<le> f"
    using find_insert_old[of c "facet s i" _ "[v]" 0] by blast
qed

lemma closed_Relaxed:
  assumes "closed_complex sc0"
  shows "closed_complex (sc (Relaxed_witness_complex distances knn sc0 nbL alpha limD))"
proof (rule Relaxed_inv[where I = closed_complex])
  show "\<And>c cand fv0 fv. closed_complex c \<Longrightarrow> all_faces_in c cand fv0 = (True, fv)
          \<Longrightarrow> closed_complex (insert_simplex c cand fv)"
    by (rule closed_step)
  show "\<And>c v. closed_complex c \<Longrightarrow> closed_complex (insert_simplex c [v] 0)"
    by (rule closed_vertex)
  show "\<And>c d. closed_complex c \<Longrightarrow> closed_complex (set_dimension c d)"
    by (simp add: closed_complex_def)
  show "closed_complex sc0" by fact
qed

lemma facet_monotone_Relaxed:
  assumes "facet_monotone sc0"
  shows "facet_monotone (sc (Relaxed_witness_complex distances knn sc0 nbL alpha limD))"
proof (rule Relaxed_inv[where I = facet_monotone])
  show "\<And>c cand fv0 fv. facet_monotone c \<Longrightarrow> all_faces_in c cand fv0 = (True, fv)
          \<Longrightarrow> facet_monotone (insert_simplex c cand fv)"
    by (rule facet_monotone_step)
  show "\<And>c v. facet_monotone c \<Longrightarrow> facet_monotone (insert_simplex c [v] 0)"
    by (rule facet_monotone_vertex)
  show "\<And>c d. facet_monotone c \<Longrightarrow> facet_monotone (set_dimension c d)"
    by (simp add: facet_monotone_def)
  show "facet_monotone sc0" by fact
qed

subsection \<open>Faces of every codimension\<close>

lemma mset_subset_remove:
  assumes "A \<subseteq># B" "x \<in># B - A"
  shows "A \<subseteq># B - {#x#}"
  by (metis assms(1,2) in_diffD single_subset_iff
    subset_mset.add_diff_inverse subset_mset.add_le_cancel_left
    subset_mset.le_diff_conv2)

lemma proper_face_extra:
  assumes "mset F \<subseteq># mset S" "length F < length S"
  shows "\<exists>x. x \<in># mset S - mset F"
  by (metis Diff_eq_empty_iff_mset assms(1,2) less_not_refl
    multiset_nonemptyE size_mset subset_mset.eq_iff)

lemma same_size_face:
  assumes "mset F \<subseteq># mset S" "length S \<le> length F"
  shows "mset F = mset S"
  by (metis (lifting) ext Diff_eq_empty_iff_mset assms(1,2) diff_is_0_eq'
    size_Diff_submset size_eq_0_iff_empty size_mset
    subset_mset.eq_iff)

lemma faces_monotone:
  assumes fm: "facet_monotone c"
  shows "find_simplex c S = Some fS \<Longrightarrow> F \<noteq> [] \<Longrightarrow> mset F \<subseteq># mset S \<Longrightarrow>
         \<exists>fF. find_simplex c F = Some fF \<and> fF \<le> fS"
proof (induction "length S - length F" arbitrary: S fS)
  case 0
  then have "mset F = mset S" using same_size_face by auto
  then show ?case using find_simplex_mset[of F S c] "0.prems"(1) by auto
next
  case (Suc n)
  then have lt: "length F < length S" by simp
  from proper_face_extra[OF Suc.prems(3) lt] obtain x where x: "x \<in># mset S - mset F" by blast
  then have "x \<in> set S" by (metis in_diffD set_mset_mset)
  then obtain i where i: "i < length S" "S ! i = x" by (auto simp: in_set_conv_nth)
  have "1 \<le> length F" using Suc.prems(2) by (cases F) auto
  with lt have two: "2 \<le> length S" by simp
  from fm Suc.prems(1) two i(1) obtain g where
    g: "find_simplex c (facet S i) = Some g" "g \<le> fS"
    unfolding facet_monotone_def by blast
  have sub: "mset F \<subseteq># mset (facet S i)"
    using mset_subset_remove[OF Suc.prems(3) x] i by (simp add: mset_facet)
  have n: "n = length (facet S i) - length F"
    using Suc.hyps(2) i(1) by (simp add: length_facet)
  from Suc.hyps(1)[OF n g(1) Suc.prems(2) sub] obtain fF where
    "find_simplex c F = Some fF" "fF \<le> g" by blast
  with g(2) show ?case by auto
qed

lemma closed_empty: "closed_complex empty_complex"
  by (simp add: closed_complex_def find_simplex_def empty_complex_def)

lemma facet_monotone_empty: "facet_monotone empty_complex"
  by (simp add: facet_monotone_def find_simplex_def empty_complex_def)

lemma leaf_visit_changes:
  assumes "sc (snd (leaf_visit nd d cand wba st)) \<noteq> sc st"
  shows "\<forall>i<length cand. find_simplex (sc st) (facet cand i) \<noteq> None"
proof -
  obtain ok fv where r: "all_faces_in (sc st) cand (initial_filtration d nd) = (ok, fv)"
    by (cases "all_faces_in (sc st) cand (initial_filtration d nd)")
  have ok using assms r by (cases ok) (auto simp: leaf_visit_def)
  with r all_faces_in_True[of "sc st" cand "initial_filtration d nd" fv] show ?thesis by auto
qed

lemmas relaxed_eval =
  Relaxed_witness_complex_def empty_complex_def init_state_def fill_landmarks_def
  insert_simplex_def find_simplex_def set_dimension_def row_def enter_def leave_def
  admissible_def norelax_inner_def norelax_leaf_def leaf_visit_def initial_filtration_def
  all_faces_in_def facet_def construct_loop.simps upt_rec[of _ "numeral _"] upt_rec[of 0]

lemma relaxation_window_run:
  "sc (Relaxed_witness_complex [[1, 12/10, 5]] [[0, 1, 2]] empty_complex 3 (1/2) 1) =
     \<lparr>simplices = [([0], 0), ([1], 0), ([2], 0), ([0, 1], 0)], dimension = 1\<rparr>"
  by (simp add: relaxed_eval)

text \<open>
  C1. Closure: every simplex of dimension at least 1 that is present in the complex built by
  the constructor has each of its codimension-1 faces (the candidate with one vertex
  omitted) present as well, provided the complex handed to the constructor is closed (the
  empty complex is); and the leaf step changes the complex only when \<^verbatim>\<open>all_faces_in\<close> has
  found every facet of the candidate in the complex.
\<close>

theorem closure_of_the_output:
  "(closed_complex sc0 \<longrightarrow>
      find_simplex (sc (Relaxed_witness_complex distances knn sc0 nbL alpha limD)) s \<noteq> None \<longrightarrow>
      2 \<le> length s \<longrightarrow> i < length s \<longrightarrow>
      find_simplex (sc (Relaxed_witness_complex distances knn sc0 nbL alpha limD)) (facet s i)
        \<noteq> None)
   \<and> (sc (snd (leaf_visit nd d cand wba st)) \<noteq> sc st \<longrightarrow>
        (\<forall>j<length cand. find_simplex (sc st) (facet cand j) \<noteq> None))"
proof (intro conjI impI)
  assume "closed_complex sc0"
    and "find_simplex (sc (Relaxed_witness_complex distances knn sc0 nbL alpha limD)) s \<noteq> None"
    and "2 \<le> length s" and "i < length s"
  then show "find_simplex (sc (Relaxed_witness_complex distances knn sc0 nbL alpha limD))
               (facet s i) \<noteq> None"
    using closed_Relaxed[of sc0 distances knn nbL alpha limD]
    unfolding closed_complex_def by blast
next
  assume "sc (snd (leaf_visit nd d cand wba st)) \<noteq> sc st"
  then show "\<forall>j<length cand. find_simplex (sc st) (facet cand j) \<noteq> None"
    by (rule leaf_visit_changes)
qed

theorem closure_of_the_output_witness:
  "closed_complex empty_complex
   \<and> find_simplex (sc (Relaxed_witness_complex [[1, 12/10, 5]] [[0, 1, 2]] empty_complex 3 (1/2) 1))
        [0, 1] \<noteq> None
   \<and> find_simplex (sc (Relaxed_witness_complex [[1, 12/10, 5]] [[0, 1, 2]] empty_complex 3 (1/2) 1))
        (facet [0, 1] 0) \<noteq> None
   \<and> find_simplex (sc (Relaxed_witness_complex [[1, 12/10, 5]] [[0, 1, 2]] empty_complex 3 (1/2) 1))
        (facet [0, 1] 1) \<noteq> None"
proof -
  let ?out = "sc (Relaxed_witness_complex [[1, 12/10, 5]] [[0, 1, 2]] empty_complex 3 (1/2) 1)"
  have present: "find_simplex ?out [0, 1] \<noteq> None"
    unfolding relaxation_window_run by (simp add: find_simplex_def)
  have len: "2 \<le> length [0::int, 1]" "0 < length [0::int, 1]" "1 < length [0::int, 1]" by simp_all
  note c = closure_of_the_output[of empty_complex "[[1, 12/10, 5]]" "[[0, 1, 2]]" 3 "1/2" 1 "[0, 1]"]
  have "find_simplex ?out (facet [0, 1] 0) \<noteq> None"
    using c[of 0, THEN conjunct1] closed_empty present len by blast
  moreover have "find_simplex ?out (facet [0, 1] 1) \<noteq> None"
    using c[of 1, THEN conjunct1] closed_empty present len by blast
  ultimately show ?thesis using closed_empty present by blast
qed

text \<open>
  C4. Filtration monotonicity: in the complex built by the constructor (from a complex whose
  recorded values are monotone from facet to simplex, such as the empty one), every face
  \<open>F\<close> of a stored simplex \<open>S\<close>, that is every non-empty sub-multiset of its vertices, is
  stored with a filtration value that is at most the value recorded for \<open>S\<close>.
\<close>

theorem filtration_monotone_on_faces:
  assumes "facet_monotone sc0"
    and "find_simplex (sc (Relaxed_witness_complex distances knn sc0 nbL alpha limD)) S = Some fS"
    and "F \<noteq> []" and "mset F \<subseteq># mset S"
  shows "\<exists>fF. find_simplex (sc (Relaxed_witness_complex distances knn sc0 nbL alpha limD)) F
                 = Some fF \<and> fF \<le> fS"
  using faces_monotone[OF facet_monotone_Relaxed[OF assms(1)] assms(2,3,4)] .

lemma triangle_run:
  "sc (Relaxed_witness_complex [[1, 15/10, 2, 10]] [[0, 1, 2, 3]] empty_complex 4 1 2) =
     \<lparr>simplices = [([0], 0), ([1], 0), ([2], 0), ([3], 0), ([0, 1], 0), ([0, 2], 1/2),
                    ([1, 2], 1), ([0, 1, 2], 1)], dimension = 2\<rparr>"
  by (simp add: relaxed_eval)

theorem filtration_monotone_on_faces_witness:
  "facet_monotone empty_complex
   \<and> find_simplex (sc (Relaxed_witness_complex [[1, 15/10, 2, 10]] [[0, 1, 2, 3]] empty_complex 4 1 2))
        [0, 1, 2] = Some 1
   \<and> [2, 0] \<noteq> [] \<and> mset [2, 0] \<subseteq># mset [0, 1, 2 :: int]
   \<and> (\<exists>fF. find_simplex (sc (Relaxed_witness_complex [[1, 15/10, 2, 10]] [[0, 1, 2, 3]]
                    empty_complex 4 1 2)) [2, 0] = Some fF \<and> fF \<le> 1)"
proof -
  let ?out = "sc (Relaxed_witness_complex [[1, 15/10, 2, 10]] [[0, 1, 2, 3]] empty_complex 4 1 2)"
  have S: "find_simplex ?out [0, 1, 2] = Some 1"
    unfolding triangle_run by (simp add: find_simplex_def)
  have F: "[2, 0 :: int] \<noteq> []" by simp
  have sub: "mset [2, 0] \<subseteq># mset [0, 1, 2 :: int]" by simp
  from filtration_monotone_on_faces[OF facet_monotone_empty S F sub]
  show ?thesis using facet_monotone_empty S sub by blast
qed

subsection \<open>The scanning step\<close>

lemma norelax_leaf_spec: "norelax_leaf d nd = spec_norelax_update d nd"
  by (cases nd) (auto simp: norelax_leaf_def spec_norelax_update_def)

lemma norelax_inner_spec: "norelax_inner d nd = spec_norelax_update d nd"
  by (simp add: norelax_inner_def spec_norelax_update_def)

text \<open>
  C2. One step of either scanning loop at a cursor inside the row, with the landmark \<open>l\<close> at
  distance \<open>d\<close>: the landmark is appended to the candidate (the leaf step, respectively the
  recursive call, runs on \<open>simplex @ [l]\<close>) exactly when \<open>d - alpha \<le> norelax_dist\<close>, and
  otherwise the loop ends with nothing changed; after an appended landmark the loop goes on
  with the reference distance \<open>d\<close> when \<open>d \<le> norelax_dist\<close> and with the old one
  otherwise, in the loop for \<^verbatim>\<open>dim > 0\<close> and in the loop for \<^verbatim>\<open>dim == 0\<close> alike.
\<close>

theorem scanning_step:
  "scan_leaf alpha nd (d # ds) (l # ls) simplex wba st =
     (if dist_le (d - alpha) nd then
        scan_leaf alpha (spec_norelax_update d nd) ds ls simplex
          (fst (leaf_visit nd d (simplex @ [l]) wba st))
          (snd (leaf_visit nd d (simplex @ [l]) wba st))
      else (wba, st))
   \<and> scan_inner dm alpha nd (d # ds) (l # ls) simplex wba st =
     (if dist_le (d - alpha) nd then
        scan_inner dm alpha (spec_norelax_update d nd) ds ls simplex
          (fst (add_all_faces_of_dimension (dm - 1) alpha (spec_norelax_update d nd) ds ls simplex
                  (snd (include_call dm alpha nd ds ls simplex l wba st)))
           \<or> fst (include_call dm alpha nd ds ls simplex l wba st))
          (snd (add_all_faces_of_dimension (dm - 1) alpha (spec_norelax_update d nd) ds ls simplex
                  (snd (include_call dm alpha nd ds ls simplex l wba st))))
      else (wba, st))"
  unfolding scan_leaf_Cons scan_inner_Cons norelax_leaf_spec norelax_inner_spec admissible_def
  by simp

subsection \<open>The filtration value of a leaf candidate\<close>

lemma Max_insert_max:
  assumes "finite A"
  shows "Max (insert (max f (x::real)) A) = Max (insert x (insert f A))"
proof (cases "A = {}")
  case True
  then show ?thesis by (simp add: max.commute)
next
  case False
  then show ?thesis using assms by (simp add: max.assoc max.commute max.left_commute)
qed

lemma all_faces_in_loop_value:
  "all_faces_in_loop c s is fv0 = (True, fv) \<Longrightarrow>
     fv = Max (insert fv0 ((\<lambda>i. the (find_simplex c (facet s i))) ` set is))"
proof (induction "is" arbitrary: fv0)
  case Nil
  then show ?case by simp
next
  case (Cons i "is")
  then obtain f where f: "find_simplex c (facet s i) = Some f"
    by (auto split: option.splits)
  have m: "(if f > fv0 then f else fv0) = max f fv0" by (simp add: max_def)
  have "all_faces_in_loop c s is (max f fv0) = (True, fv)"
    using Cons.prems f by (simp add: m)
  from Cons.IH[OF this] have
    "fv = Max (insert (max f fv0) ((\<lambda>i. the (find_simplex c (facet s i))) ` set is))" .
  then show ?case using f by (simp add: Max_insert_max)
qed

lemma all_faces_in_value:
  assumes "all_faces_in c cand fv0 = (True, fv)" "cand \<noteq> []"
  shows "fv = max (closure_bound c cand) fv0"
proof -
  let ?A = "(\<lambda>i. the (find_simplex c (facet cand i))) ` {..<length cand}"
  have "set [0..<length cand] = {..<length cand}" by auto
  then have "fv = Max (insert fv0 ?A)"
    using all_faces_in_loop_value[of c cand "[0..<length cand]" fv0 fv] assms(1)
    by (simp only: all_faces_in_def)
  moreover have "finite ?A" by simp
  moreover have "0 \<in> {..<length cand}" using assms(2) by simp
  then have "?A \<noteq> {}" by blast
  ultimately show ?thesis unfolding closure_bound_def by (simp add: max.commute)
qed

lemma initial_filtration_cost: "initial_filtration d nd = relaxation_cost d nd"
  by (cases nd) (auto simp: initial_filtration_def relaxation_cost_def)

lemma relaxation_cost_nonneg: "0 \<le> relaxation_cost d nd"
  by (cases nd) (auto simp: relaxation_cost_def)

text \<open>
  C3. At the leaf, for the candidate \<open>simplex @ [l]\<close> whose last vertex has distance \<open>d\<close>:
  when \<^verbatim>\<open>all_faces_in\<close> succeeds, the value handed to \<^verbatim>\<open>insert_simplex\<close> is the maximum of
  the closure bound (the largest filtration value among the facets of the candidate) and
  of \<open>max(0, d - norelax_dist)\<close>, and it is not negative; when \<^verbatim>\<open>all_faces_in\<close> fails,
  nothing is inserted.
\<close>

theorem leaf_filtration_value:
  "leaf_visit nd d (simplex @ [l]) wba st =
     (if fst (all_faces_in (sc st) (simplex @ [l]) (initial_filtration d nd)) then
        (True, st\<lparr>sc := insert_simplex (sc st) (simplex @ [l])
                           (max (closure_bound (sc st) (simplex @ [l])) (relaxation_cost d nd))\<rparr>)
      else (wba, st))
   \<and> 0 \<le> max (closure_bound (sc st) (simplex @ [l])) (relaxation_cost d nd)"
proof -
  obtain ok fv where r: "all_faces_in (sc st) (simplex @ [l]) (initial_filtration d nd) = (ok, fv)"
    by (cases "all_faces_in (sc st) (simplex @ [l]) (initial_filtration d nd)")
  have "leaf_visit nd d (simplex @ [l]) wba st =
     (if ok then
        (True, st\<lparr>sc := insert_simplex (sc st) (simplex @ [l])
                           (max (closure_bound (sc st) (simplex @ [l])) (relaxation_cost d nd))\<rparr>)
      else (wba, st))"
  proof (cases ok)
    case True
    with r have "fv = max (closure_bound (sc st) (simplex @ [l])) (relaxation_cost d nd)"
      using all_faces_in_value[of "sc st" "simplex @ [l]" "initial_filtration d nd" fv]
      by (simp add: initial_filtration_cost)
    then show ?thesis using True r by (simp add: leaf_visit_def)
  next
    case False
    then show ?thesis using r by (simp add: leaf_visit_def)
  qed
  moreover have "0 \<le> max (closure_bound (sc st) (simplex @ [l])) (relaxation_cost d nd)"
    using relaxation_cost_nonneg[of d nd] by (simp add: max_def)
  ultimately show ?thesis using r by simp
qed

lemmas new_eval =
  create_complex_def num_vertices_def fill_vertices_def fill_edges_def fill_simplices_def
  simplices_loop.simps increase_def decrease_def counter_of_def erase_def release_def
  next_it_def empty_complex_def insert_simplex_def find_simplex_def set_dimension_def
  admissible_def norelax_leaf_def upt_rec[of _ "numeral _"] upt_rec[of 0]

subsection \<open>The relaxation-window scenario\<close>

lemma relaxation_window_simplices:
  assumes "1 \<le> limD"
  shows "simplices (sc (Relaxed_witness_complex [[1, 12/10, 5]] [[0, 1, 2]] empty_complex 3 (1/2) limD))
           = [([0], 0), ([1], 0), ([2], 0), ([0, 1], 0)]"
proof (cases "limD = 1")
  case True
  then show ?thesis by (simp add: relaxed_eval)
next
  case False
  with assms have "2 \<le> limD" by simp
  then show ?thesis by (simp add: relaxed_eval)
qed

lemma sorted_pair_set: "sort s = [a, b] \<Longrightarrow> set s = {a, b}"
  by (metis list.simps(15) set_empty2 set_sort insert_commute)

text \<open>
  C8, as the constructor behaves. For one witness with the row
  \<open>[(0, 1.0), (1, 1.2), (2, 5.0)]\<close>, \<open>alpha = 0.5\<close>, three landmarks and a dimension limit
  of at least 1, the complex consists of the vertices \<open>{0}\<close>, \<open>{1}\<close>, \<open>{2}\<close> (the constructor
  inserts every landmark as a vertex with filtration 0, witnessed or not) and of the edge
  \<open>{0, 1}\<close>; no simplex with two or more vertices has landmark 2 among them.
\<close>

theorem relaxation_window_scenario:
  assumes "1 \<le> limD"
  shows "simplices (sc (Relaxed_witness_complex [[1, 12/10, 5]] [[0, 1, 2]] empty_complex 3 (1/2) limD))
           = [([0], 0), ([1], 0), ([2], 0), ([0, 1], 0)]
         \<and> (2 \<in> set s \<and> 2 \<le> length s \<longrightarrow>
              find_simplex (sc (Relaxed_witness_complex [[1, 12/10, 5]] [[0, 1, 2]] empty_complex 3
                                  (1/2) limD)) s = None)"
proof (intro conjI impI)
  show eq: "simplices (sc (Relaxed_witness_complex [[1, 12/10, 5]] [[0, 1, 2]] empty_complex 3 (1/2) limD))
           = [([0], 0), ([1], 0), ([2], 0), ([0, 1], 0)]"
    by (rule relaxation_window_simplices[OF assms])
  assume s: "2 \<in> set s \<and> 2 \<le> length s"
  show "find_simplex (sc (Relaxed_witness_complex [[1, 12/10, 5]] [[0, 1, 2]] empty_complex 3
                                  (1/2) limD)) s = None"
  proof (rule ccontr)
    assume "find_simplex (sc (Relaxed_witness_complex [[1, 12/10, 5]] [[0, 1, 2]] empty_complex 3
                                  (1/2) limD)) s \<noteq> None"
    then have "map_of [([0], 0), ([1], 0), ([2], 0), ([0, 1], 0 :: real)] (sort s) \<noteq> None"
      unfolding find_simplex_def eq by (simp split: if_splits)
    then have "sort s = [0] \<or> sort s = [1] \<or> sort s = [2] \<or> sort s = [0, 1]"
      by (simp split: if_splits)
    moreover have "length (sort s) = length s" by simp
    ultimately have "sort s = [0, 1]" using s by (metis One_nat_def length_Cons list.size(3) numeral_le_one_iff semiring_norm(69))
    then have "set s = {0, 1}" by (rule sorted_pair_set)
    with s show False by simp
  qed
qed

theorem relaxation_window_scenario_witness:
  "(1::int) \<le> 1
   \<and> simplices (sc (Relaxed_witness_complex [[1, 12/10, 5]] [[0, 1, 2]] empty_complex 3 (1/2) 1))
       = [([0], 0), ([1], 0), ([2], 0), ([0, 1], 0)]
   \<and> find_simplex (sc (Relaxed_witness_complex [[1, 12/10, 5]] [[0, 1, 2]] empty_complex 3 (1/2) 1))
        [1, 2] = None"
  using relaxation_window_scenario[of 1 "[1, 2]"] by simp

theorem relaxation_window_vertex_2_present:
  "find_simplex (sc (Relaxed_witness_complex [[1, 12/10, 5]] [[0, 1, 2]] empty_complex 3 (1/2) 1)) [2]
     = Some 0"
  unfolding relaxation_window_run by (simp add: find_simplex_def)

subsection \<open>Argument validation\<close>

text \<open>
  C9, as the code behaves. \<^verbatim>\<open>Witness_complex_new::create_complex\<close> called with a negative
  relaxation parameter returns false and leaves the complex as it was, for every
  nearest-landmark table and every limit dimension.
\<close>

theorem create_complex_rejects_negative_alpha:
  "max_alpha_square < 0 \<Longrightarrow>
     create_complex nearest_landmark_table c max_alpha_square limit_dimension = (False, c)"
  by (simp add: create_complex_def)

theorem create_complex_rejects_negative_alpha_witness:
  "(- 1 :: real) < 0
   \<and> create_complex [[(0, 1), (1, 2)]] empty_complex (- 1) 5 = (False, empty_complex)"
  using create_complex_rejects_negative_alpha[of "- 1" "[[(0, 1), (1, 2)]]" empty_complex 5]
  by simp

text \<open>The constructor \<^verbatim>\<open>Relaxed_witness_complex\<close> checks neither argument: with
  \<open>alpha = - 1\<close> and \<open>limD = - 1\<close> it inserts the vertex of the one landmark.\<close>

theorem Relaxed_accepts_negative_arguments:
  "sc (Relaxed_witness_complex [] [] empty_complex 1 (- 1) (- 1))
     = \<lparr>simplices = [([0], 0)], dimension = - 1\<rparr>"
  by (simp add: relaxed_eval)

subsection \<open>The two strategies\<close>

text \<open>
  C5 at a failing input: two witnesses with the rows \<open>[(0,1), (1,1), (2,1), (3,10)]\<close> and
  \<open>[(3,1), (0,10), (1,20), (2,30)]\<close>, four landmarks, \<open>alpha = 0\<close>, dimension limit 2. Both
  constructions insert the same vertices and edges with the same values; the constructor
  \<^verbatim>\<open>Relaxed_witness_complex\<close> also inserts the triangle \<open>{0, 1, 2}\<close>, and
  \<^verbatim>\<open>Witness_complex_new::create_complex\<close> does not.
\<close>

theorem strategies_disagree:
  "simplices (sc (Relaxed_witness_complex [[1, 1, 1, 10], [1, 10, 20, 30]]
                     [[0, 1, 2, 3], [3, 0, 1, 2]] empty_complex 4 0 2))
     = [([0], 0), ([1], 0), ([2], 0), ([3], 0), ([0, 1], 0), ([0, 2], 0), ([1, 2], 0),
        ([0, 3], 0), ([0, 1, 2], 0)]
   \<and> create_complex [[(0, 1), (1, 1), (2, 1), (3, 10)], [(3, 1), (0, 10), (1, 20), (2, 30)]]
         empty_complex 0 2
     = (True, \<lparr>simplices = [([0], 0), ([1], 0), ([2], 0), ([3], 0), ([0, 1], 0), ([0, 2], 0),
                              ([1, 2], 0), ([0, 3], 0)], dimension = 2\<rparr>)"
proof
  show "simplices (sc (Relaxed_witness_complex [[1, 1, 1, 10], [1, 10, 20, 30]]
                     [[0, 1, 2, 3], [3, 0, 1, 2]] empty_complex 4 0 2))
     = [([0], 0), ([1], 0), ([2], 0), ([3], 0), ([0, 1], 0), ([0, 2], 0), ([1, 2], 0),
        ([0, 3], 0), ([0, 1, 2], 0)]"
    by (simp add: relaxed_eval)
  show "create_complex [[(0, 1), (1, 1), (2, 1), (3, 10)], [(3, 1), (0, 10), (1, 20), (2, 30)]]
         empty_complex 0 2
     = (True, \<lparr>simplices = [([0], 0), ([1], 0), ([2], 0), ([3], 0), ([0, 1], 0), ([0, 2], 0),
                              ([1, 2], 0), ([0, 3], 0)], dimension = 2\<rparr>)"
    by (simp add: new_eval)
qed

subsection \<open>The read past the end of the row\<close>

lemma oob_leave [simp]: "oob_read (leave st) = oob_read st" by (simp add: leave_def)

lemma oob_enter [simp]: "oob_read (enter st) = oob_read st" by (simp add: enter_def)

lemma norelax_leaf_inner: "norelax_leaf d nd = norelax_inner d nd"
  by (simp add: norelax_leaf_spec norelax_inner_spec)

lemma scan_leaf_oob:
  "length ls = length ds \<Longrightarrow> all_admissible alpha nd ds \<Longrightarrow>
     oob_read (snd (scan_leaf alpha nd ds ls simplex wba st))"
proof (induction ds arbitrary: ls nd wba st)
  case Nil
  then show ?case by simp
next
  case (Cons d ds)
  then obtain l ls' where ls: "ls = l # ls'" by (cases ls) auto
  with Cons.prems have "length ls' = length ds" "all_admissible alpha (norelax_leaf d nd) ds"
    "admissible alpha nd d"
    by (simp_all add: norelax_leaf_inner)
  then show ?case unfolding ls scan_leaf_Cons using Cons.IH by simp
qed

lemma scan_inner_oob:
  "length ls = length ds \<Longrightarrow> all_admissible alpha nd ds \<Longrightarrow>
     oob_read (snd (scan_inner dm alpha nd ds ls simplex wba st))"
proof (induction ds arbitrary: ls nd wba st)
  case Nil
  then show ?case by simp
next
  case (Cons d ds)
  then obtain l ls' where ls: "ls = l # ls'" by (cases ls) auto
  with Cons.prems have "length ls' = length ds" "all_admissible alpha (norelax_inner d nd) ds"
    "admissible alpha nd d"
    by simp_all
  then show ?case unfolding ls scan_inner_Cons using Cons.IH by simp
qed

lemma add_all_oob:
  assumes "ls \<noteq> []" "length ds = length ls" "all_admissible alpha nd ds" "0 \<le> dm"
  shows "oob_read (snd (add_all_faces_of_dimension dm alpha nd ds ls simplex st))"
proof -
  obtain l ls' where ls: "ls = l # ls'" using assms(1) by (cases ls) auto
  show ?thesis
  proof (cases "dm > 0")
    case True
    then show ?thesis unfolding ls add_all_Cons
      using scan_inner_oob[of "l # ls'" ds alpha nd dm simplex False "enter st"] assms(2,3) ls
      by simp
  next
    case False
    with assms(4) have "dm = 0" by simp
    then show ?thesis unfolding ls add_all_Cons
      using scan_leaf_oob[of "l # ls'" ds alpha nd simplex False "enter st"] assms(2,3) ls
      by simp
  qed
qed

lemma scan_leaf_new_oob:
  "all_admissible alpha nd (map snd l_it) \<Longrightarrow>
     oob_read (snd (scan_leaf_new alpha nd l_it simplex wba st))"
proof (induction l_it arbitrary: nd wba st)
  case Nil
  then show ?case by simp
next
  case (Cons p l_it)
  obtain l d where p: "p = (l, d)" by (cases p)
  with Cons.prems have "all_admissible alpha (norelax_leaf d nd) (map snd l_it)"
    "admissible alpha nd d"
    by (simp_all add: norelax_leaf_inner)
  then show ?case unfolding p using Cons.IH by (simp add: case_prod_beta)
qed

lemma scan_inner_new_oob:
  "all_admissible alpha nd (map snd l_it) \<Longrightarrow>
     oob_read (snd (scan_inner_new dm alpha nd l_it simplex wba st))"
proof (induction l_it arbitrary: nd wba st)
  case Nil
  then show ?case by simp
next
  case (Cons p l_it)
  obtain l d where p: "p = (l, d)" by (cases p)
  with Cons.prems have "all_admissible alpha (norelax_inner d nd) (map snd l_it)"
    "admissible alpha nd d"
    by simp_all
  then show ?case unfolding p using Cons.IH by (simp add: case_prod_beta)
qed

lemma add_all_new_oob:
  assumes "curr_l \<noteq> []" "all_admissible alpha nd (map snd curr_l)" "0 \<le> dm"
  shows "oob_read (snd (add_all_faces_of_dimension_new dm alpha nd curr_l simplex st))"
proof -
  obtain p rest where c: "curr_l = p # rest" using assms(1) by (cases curr_l) auto
  show ?thesis
  proof (cases "dm > 0")
    case True
    then show ?thesis unfolding c
      using scan_inner_new_oob[of alpha nd "p # rest" dm simplex False "enter st"] assms(2) c
      by (simp add: case_prod_beta)
  next
    case False
    with assms(3) have "dm = 0" by simp
    then show ?thesis unfolding c
      using scan_leaf_new_oob[of alpha nd "p # rest" simplex False "enter st"] assms(2) c
      by (simp add: case_prod_beta)
  qed
qed

text \<open>
  C10. In both implementations of \<^verbatim>\<open>add_all_faces_of_dimension\<close> the guard dereferences the
  distance before it compares the cursor with the end. Whenever the row is not empty and
  every distance of it passes the admissibility test (for instance because \<open>alpha\<close> is
  large), the loop reaches the end of the row and the guard reads one element past it: the
  out-of-range branch of the read is taken.
\<close>

theorem guard_reads_past_the_end:
  "(ls \<noteq> [] \<longrightarrow> length ds = length ls \<longrightarrow> all_admissible alpha nd ds \<longrightarrow> 0 \<le> dm \<longrightarrow>
      oob_read (snd (add_all_faces_of_dimension dm alpha nd ds ls simplex st)))
   \<and> (curr_l \<noteq> [] \<longrightarrow> all_admissible alpha nd (map snd curr_l) \<longrightarrow> 0 \<le> dm \<longrightarrow>
      oob_read (snd (add_all_faces_of_dimension_new dm alpha nd curr_l simplex st)))"
  using add_all_oob[of ls ds alpha nd dm simplex st]
        add_all_new_oob[of curr_l alpha nd dm simplex st]
  by blast

theorem guard_reads_past_the_end_witness:
  "[0 :: int] \<noteq> [] \<and> length [1 :: real] = length [0 :: int] \<and> all_admissible 0 Infinity [1]
   \<and> (0 :: int) \<le> 1
   \<and> \<not> oob_read (init_state (fill_landmarks 1 empty_complex))
   \<and> oob_read (snd (add_all_faces_of_dimension 1 0 Infinity [1] [0] []
                      (init_state (fill_landmarks 1 empty_complex))))
   \<and> [(0 :: nat, 1 :: real)] \<noteq> [] \<and> all_admissible 0 Infinity (map snd [(0 :: nat, 1 :: real)])
   \<and> oob_read (snd (add_all_faces_of_dimension_new 1 0 Infinity [(0, 1)] []
                      (init_state (fill_landmarks 1 empty_complex))))"
proof -
  have a: "all_admissible 0 Infinity [1]" by (simp add: admissible_def)
  have b: "all_admissible 0 Infinity (map snd [(0 :: nat, 1 :: real)])" by (simp add: admissible_def)
  have c: "\<not> oob_read (init_state (fill_landmarks 1 empty_complex))" by (simp add: init_state_def)
  from guard_reads_past_the_end[of "[0]" "[1]" 0 Infinity 1 "[]"
         "init_state (fill_landmarks 1 empty_complex)" "[(0, 1)]"]
  show ?thesis using a b c by simp
qed

subsection \<open>Termination: recursion depth and the outer loop\<close>

lemma depth_leaf_visit [simp]:
  "call_depth (snd (leaf_visit nd d cand wba st)) = call_depth st"
  "max_call_depth (snd (leaf_visit nd d cand wba st)) = max_call_depth st"
  by (auto simp: leaf_visit_def split: prod.splits bool.splits)

lemma depth_scan_leaf:
  "call_depth (snd (scan_leaf alpha nd ds ls simplex wba st)) = call_depth st
   \<and> max_call_depth (snd (scan_leaf alpha nd ds ls simplex wba st)) = max_call_depth st"
proof (induction alpha nd ds ls simplex wba st rule: scan_leaf.induct)
  case (3 alpha nd d ds l ls simplex wba st)
  show ?case
  proof (cases "admissible alpha nd d")
    case True
    from "3.IH"[OF True prod.collapse] show ?thesis
      unfolding scan_leaf_Cons using True by simp
  next
    case False
    then show ?thesis by simp
  qed
qed simp_all

lemma depth_add_all:
  shows "call_depth (snd (add_all_faces_of_dimension dm alpha nd ds ls simplex st)) = call_depth st
         \<and> max_call_depth (snd (add_all_faces_of_dimension dm alpha nd ds ls simplex st))
             \<le> max (max_call_depth st) (call_depth st + 1 + length ls)"
    and "call_depth (snd (scan_inner dm alpha nd ds ls simplex wba st)) = call_depth st
         \<and> max_call_depth (snd (scan_inner dm alpha nd ds ls simplex wba st))
             \<le> max (max_call_depth st) (call_depth st + length ls)"
proof (induction dm alpha nd ds ls simplex st and dm alpha nd ds ls simplex wba st
       rule: add_all_scan_induct)
  case (empty dm alpha nd ds simplex st)
  then show ?case by (simp add: enter_def leave_def)
next
  case (call dm alpha nd ds l ls simplex st)
  show ?case
  proof (cases "dm > 0")
    case True
    from call[OF True] show ?thesis using True
      unfolding add_all_Cons by (auto simp add: enter_def leave_def max_def split: if_splits)
  next
    case False
    then show ?thesis
      using depth_scan_leaf[of alpha nd ds "l # ls" simplex False "enter st"]
      unfolding add_all_Cons by (auto simp add: enter_def leave_def max_def split: if_splits)
  qed
next
  case (oob dm alpha nd ls simplex wba st)
  then show ?case by simp
next
  case (exhausted dm alpha nd d ds simplex wba st)
  then show ?case by simp
next
  case (step dm alpha nd d ds l ls simplex wba st a b)
  have a: "call_depth (snd a) = call_depth st
           \<and> max_call_depth (snd a) \<le> max (max_call_depth st) (call_depth st + 1 + length ls)"
    using step.IH(1) by (simp add: step.hyps(2) include_call_def case_prod_beta)
  have b: "call_depth (snd b) = call_depth (snd a)
           \<and> max_call_depth (snd b) \<le> max (max_call_depth (snd a)) (call_depth (snd a) + 1 + length ls)"
    using step.IH(2) by (simp add: step.hyps(3))
  from a b step.IH(3) show ?case
    unfolding scan_inner_Cons step.hyps(2)[symmetric] step.hyps(3)[symmetric]
    using step.hyps(1) by (auto simp add: max_def split: if_splits)
next
  case (skip dm alpha nd d ds l ls simplex wba st)
  then show ?case by simp
qed

lemma construct_loop_exit:
  "construct_loop nbL limD alpha distances knn k active_w st = (k', active_w', st') \<Longrightarrow>
     k \<le> k' \<and> k' \<le> max k (int nbL) \<and> (active_w' = [] \<or> limD < k' \<or> int nbL \<le> k')"
proof (induction nbL limD alpha distances knn k active_w st rule: construct_loop.induct)
  case (1 nbL limD alpha distances knn k active_w st)
  show ?case
  proof (cases "active_w \<noteq> [] \<and> k \<le> limD \<and> k < int nbL")
    case True
    from "1.prems" have "construct_loop nbL limD alpha distances knn (k + 1)
         (fst (witness_loop k alpha distances knn active_w st))
         (snd (witness_loop k alpha distances knn active_w st)) = (k', active_w', st')"
      by (simp add: construct_loop_step[OF True])
    from "1.IH"[OF True prod.collapse this] show ?thesis using True by auto
  next
    case False
    then show ?thesis using "1.prems" by (auto simp: construct_loop_stop)
  qed
qed

text \<open>
  C7. Termination. Every function of the embedding is total: the two scanning loops and
  \<^verbatim>\<open>add_all_faces_of_dimension\<close> recurse on the rest of the row behind the cursor, and the
  outer loop on \<open>nbL - k\<close>. In numbers: a call of \<^verbatim>\<open>add_all_faces_of_dimension\<close> returns
  with the nesting of activations it found, and inside it the nesting never exceeds the
  length of the row behind the cursor plus one; the outer loop stops at once when the list of
  active witnesses is empty, when \<open>k\<close> exceeds the limit or when \<open>k\<close> exceeds \<open>nbL - 1\<close>, it
  never stops otherwise, and it ends with \<open>k\<close> at most \<open>nbL\<close> (or where it started).
\<close>

theorem construction_terminates:
  "call_depth (snd (add_all_faces_of_dimension dm alpha nd ds ls simplex st)) = call_depth st
   \<and> max_call_depth (snd (add_all_faces_of_dimension dm alpha nd ds ls simplex st))
       \<le> max (max_call_depth st) (call_depth st + 1 + length ls)
   \<and> (active_w = [] \<or> limD < k \<or> int nbL \<le> k \<longrightarrow>
        construct_loop nbL limD alpha distances knn k active_w stw = (k, active_w, stw))
   \<and> (construct_loop nbL limD alpha distances knn k active_w stw = (k', active_w', st') \<longrightarrow>
        k \<le> k' \<and> k' \<le> max k (int nbL) \<and> (active_w' = [] \<or> limD < k' \<or> int nbL \<le> k'))"
proof (intro conjI impI)
  show "call_depth (snd (add_all_faces_of_dimension dm alpha nd ds ls simplex st)) = call_depth st"
    using depth_add_all(1) by blast
  show "max_call_depth (snd (add_all_faces_of_dimension dm alpha nd ds ls simplex st))
       \<le> max (max_call_depth st) (call_depth st + 1 + length ls)"
    using depth_add_all(1) by blast
  assume "active_w = [] \<or> limD < k \<or> int nbL \<le> k"
  then have "\<not> (active_w \<noteq> [] \<and> k \<le> limD \<and> k < int nbL)" by auto
  then show "construct_loop nbL limD alpha distances knn k active_w stw = (k, active_w, stw)"
    by (rule construct_loop_stop)
next
  assume "construct_loop nbL limD alpha distances knn k active_w stw = (k', active_w', st')"
  from construct_loop_exit[OF this]
  show "k \<le> k'" "k' \<le> max k (int nbL)" "active_w' = [] \<or> limD < k' \<or> int nbL \<le> k'"
    by auto
qed

lemma relaxation_window_loop:
  "construct_loop 3 2 (1/2) [[1, 12/10, 5]] [[0, 1, 2]] 1 [0]
     (init_state (fill_landmarks 3 empty_complex))
   = (3, [],
      \<lparr>sc = \<lparr>simplices = [([0], 0), ([1], 0), ([2], 0), ([0, 1], 0)], dimension = - 1\<rparr>,
         oob_read = True, call_depth = 0, max_call_depth = 3\<rparr>)"
  by (simp add: relaxed_eval)

theorem construction_terminates_witness:
  "construct_loop 3 2 (1/2) [[1, 12/10, 5]] [[0, 1, 2]] 1 []
     (init_state (fill_landmarks 3 empty_complex))
   = (1, [], init_state (fill_landmarks 3 empty_complex))
   \<and> construct_loop 3 2 (1/2) [[1, 12/10, 5]] [[0, 1, 2]] 1 [0]
     (init_state (fill_landmarks 3 empty_complex))
   = (3, [],
      \<lparr>sc = \<lparr>simplices = [([0], 0), ([1], 0), ([2], 0), ([0, 1], 0)], dimension = - 1\<rparr>,
         oob_read = True, call_depth = 0, max_call_depth = 3\<rparr>)
   \<and> (1 :: int) \<le> 3 \<and> (3 :: int) \<le> max 1 (int 3)
   \<and> (([] :: nat list) = [] \<or> (2 :: int) < 3 \<or> int 3 \<le> 3)"
proof -
  note t = construction_terminates[where limD = 2 and k = 1 and nbL = 3 and alpha = "1/2"
             and distances = "[[1, 12/10, 5]]" and knn = "[[0, 1, 2]]"
             and stw = "init_state (fill_landmarks 3 empty_complex)"]
  have stop: "construct_loop 3 2 (1/2) [[1, 12/10, 5]] [[0, 1, 2]] 1 []
     (init_state (fill_landmarks 3 empty_complex))
   = (1, [], init_state (fill_landmarks 3 empty_complex))"
    using t[where active_w = "[]"] by simp
  have "(1 :: int) \<le> 3 \<and> (3 :: int) \<le> max 1 (int 3)
   \<and> (([] :: nat list) = [] \<or> (2 :: int) < 3 \<or> int 3 \<le> 3)"
    using t[where active_w = "[0]" and k' = 3 and active_w' = "[]"] relaxation_window_loop
    by blast
  with stop relaxation_window_loop show ?thesis by blast
qed

subsection \<open>The complex only grows\<close>

lemma sub_complex_refl [simp]: "sub_complex c c"
  by (simp add: sub_complex_def)

lemma sub_complex_trans: "sub_complex a b \<Longrightarrow> sub_complex b c \<Longrightarrow> sub_complex a c"
  by (simp add: sub_complex_def)

lemma sub_complex_insert: "sub_complex c0 c \<Longrightarrow> sub_complex c0 (insert_simplex c s fv)"
  unfolding sub_complex_def using find_insert_old[of c _ _ s fv] by fastforce

lemma grow_leaf_visit: "sub_complex (sc st) (sc (snd (leaf_visit nd d cand wba st)))"
  by (rule leaf_visit_inv[where I = "sub_complex (sc st)"]) (simp_all add: sub_complex_insert)

lemma grow_scan_leaf: "sub_complex (sc st) (sc (snd (scan_leaf alpha nd ds ls simplex wba st)))"
  by (rule scan_leaf_inv[where I = "sub_complex (sc st)"]) (simp_all add: sub_complex_insert)

lemma grow_add_all:
  "sub_complex (sc st) (sc (snd (add_all_faces_of_dimension dm alpha nd ds ls simplex st)))"
  by (rule add_all_inv(1)[where I = "sub_complex (sc st)"]) (simp_all add: sub_complex_insert)

lemma grow_scan_inner:
  "sub_complex (sc st) (sc (snd (scan_inner dm alpha nd ds ls simplex wba st)))"
  by (rule add_all_inv(2)[where I = "sub_complex (sc st)"]) (simp_all add: sub_complex_insert)

lemma grow_witness_loop:
  "sub_complex (sc st) (sc (snd (witness_loop k alpha distances knn active_w st)))"
  by (rule witness_loop_inv[where I = "sub_complex (sc st)"]) (simp_all add: sub_complex_insert)

lemma grow_construct_loop:
  "sub_complex (sc st)
     (sc (snd (snd (construct_loop nbL limD alpha distances knn k active_w st))))"
  by (rule construct_loop_inv[where I = "sub_complex (sc st)"]) (simp_all add: sub_complex_insert)

lemma grow_include_call:
  "sub_complex (sc st) (sc (snd (include_call dm alpha nd ds ls simplex l wba st)))"
  using grow_add_all[of st "dm - 1" alpha nd ds ls "simplex @ [l]"]
  by (simp add: include_call_def case_prod_beta)

subsection \<open>The active flag only rises\<close>

lemma keep_leaf_visit: "wba \<Longrightarrow> fst (leaf_visit nd d cand wba st)"
  by (auto simp: leaf_visit_def split: prod.splits bool.splits)

lemma keep_scan_leaf: "wba \<Longrightarrow> fst (scan_leaf alpha nd ds ls simplex wba st)"
proof (induction alpha nd ds ls simplex wba st rule: scan_leaf.induct)
  case (3 alpha nd d ds l ls simplex wba st)
  show ?case
  proof (cases "admissible alpha nd d")
    case True
    have "fst (leaf_visit nd d (simplex @ [l]) wba st)" using "3.prems" by (rule keep_leaf_visit)
    from "3.IH"[OF True prod.collapse this] show ?thesis
      unfolding scan_leaf_Cons using True by simp
  next
    case False
    then show ?thesis using "3.prems" by simp
  qed
qed simp_all

lemma keep_include_call: "wba \<Longrightarrow> fst (include_call dm alpha nd ds ls simplex l wba st)"
  by (simp add: include_call_def case_prod_beta)

lemma keep_scan_inner: "wba \<Longrightarrow> fst (scan_inner dm alpha nd ds ls simplex wba st)"
proof (induction ds arbitrary: ls nd wba st)
  case Nil
  then show ?case by simp
next
  case (Cons d ds)
  show ?case
  proof (cases ls)
    case Nil
    then show ?thesis using Cons.prems by simp
  next
    case (Cons l ls')
    show ?thesis
    proof (cases "admissible alpha nd d")
      case True
      have "fst (include_call dm alpha nd ds ls' simplex l wba st)"
        using Cons.prems by (rule keep_include_call)
      then show ?thesis unfolding Cons scan_inner_Cons using True Cons.IH by simp
    next
      case False
      then show ?thesis unfolding Cons using Cons.prems by simp
    qed
  qed
qed

subsection \<open>A run with a larger relaxation covers a run with a smaller one\<close>

lemma simulatesI:
  "sub_complex (sc (snd r1)) (sc (snd r2)) \<Longrightarrow> (fst r1 \<Longrightarrow> fst r2) \<Longrightarrow> simulates r1 r2"
  by (auto simp: simulates_def)

lemma simulates_pair [simp]:
  "simulates (w1, st1) (w2, st2) \<longleftrightarrow> sub_complex (sc st1) (sc st2) \<and> (w1 \<longrightarrow> w2)"
  by (simp add: simulates_def)

lemma sim_insert:
  assumes "sub_complex c1 c2"
  shows "sub_complex (insert_simplex c1 s f1) (insert_simplex c2 s f2)"
  unfolding sub_complex_def
proof (intro allI impI)
  fix t
  assume t: "find_simplex (insert_simplex c1 s f1) t \<noteq> None"
  show "find_simplex (insert_simplex c2 s f2) t \<noteq> None"
  proof (cases "find_simplex c1 t")
    case (Some f)
    then have "find_simplex c2 t \<noteq> None" using assms by (auto simp: sub_complex_def)
    then show ?thesis using find_insert_old[of c2 t _ s f2] by auto
  next
    case None
    from t obtain f where "find_simplex (insert_simplex c1 s f1) t = Some f" by auto
    from find_insert_new[OF this None] have s: "s \<noteq> []" and "sort t = sort s" by auto
    then have "mset t = mset s" by (metis mset_sort)
    then have "find_simplex (insert_simplex c2 s f2) t = find_simplex (insert_simplex c2 s f2) s"
      by (rule find_simplex_mset)
    then show ?thesis using find_insert_self[OF s, of c2 f2] by simp
  qed
qed

lemma sim_all_faces_in:
  assumes "sub_complex c1 c2" "fst (all_faces_in c1 cand fv1)"
  shows "fst (all_faces_in c2 cand fv2)"
proof -
  obtain fv where "all_faces_in c1 cand fv1 = (True, fv)"
    using assms(2) by (cases "all_faces_in c1 cand fv1") auto
  from all_faces_in_True[OF this] have "\<forall>i<length cand. find_simplex c1 (facet cand i) \<noteq> None"
    by auto
  with assms(1) have "\<forall>i<length cand. find_simplex c2 (facet cand i) \<noteq> None"
    by (auto simp: sub_complex_def)
  then show ?thesis by (rule all_faces_in_present)
qed

lemma leaf_visit_cases:
  "leaf_visit nd d cand wba st =
     (if fst (all_faces_in (sc st) cand (initial_filtration d nd))
      then (True, st\<lparr>sc := insert_simplex (sc st) cand
                              (snd (all_faces_in (sc st) cand (initial_filtration d nd)))\<rparr>)
      else (wba, st))"
  by (auto simp: leaf_visit_def split: prod.splits bool.splits)

lemma sim_leaf_visit:
  assumes "sub_complex (sc st1) (sc st2)" "w1 \<longrightarrow> w2"
  shows "simulates (leaf_visit nd d cand w1 st1) (leaf_visit nd d cand w2 st2)"
proof (cases "fst (all_faces_in (sc st1) cand (initial_filtration d nd))")
  case True
  then have "fst (all_faces_in (sc st2) cand (initial_filtration d nd))"
    using sim_all_faces_in[OF assms(1)] by blast
  then show ?thesis using True assms(1) by (simp add: leaf_visit_cases sim_insert)
next
  case False
  then show ?thesis using assms by (simp add: leaf_visit_cases sub_complex_insert)
qed

lemma admissible_mono: "alpha1 \<le> alpha2 \<Longrightarrow> admissible alpha1 nd d \<Longrightarrow> admissible alpha2 nd d"
  by (cases nd) (auto simp: admissible_def)

lemma sim_scan_leaf:
  assumes "alpha1 \<le> alpha2"
  shows "sub_complex (sc st1) (sc st2) \<Longrightarrow> (w1 \<longrightarrow> w2) \<Longrightarrow>
         simulates (scan_leaf alpha1 nd ds ls simplex w1 st1)
                   (scan_leaf alpha2 nd ds ls simplex w2 st2)"
proof (induction ds arbitrary: ls nd w1 w2 st1 st2)
  case Nil
  then show ?case by simp
next
  case (Cons d ds)
  show ?case
  proof (cases ls)
    case Nil
    then show ?thesis using Cons.prems by simp
  next
    case ls: (Cons l ls')
    let ?v1 = "leaf_visit nd d (simplex @ [l]) w1 st1"
    let ?v2 = "leaf_visit nd d (simplex @ [l]) w2 st2"
    have v: "simulates ?v1 ?v2" using Cons.prems by (rule sim_leaf_visit)
    show ?thesis
    proof (cases "admissible alpha2 nd d")
      case False
      then have "\<not> admissible alpha1 nd d" using admissible_mono[OF assms] by blast
      with False show ?thesis unfolding ls using Cons.prems by simp
    next
      case a2: True
      show ?thesis
      proof (cases "admissible alpha1 nd d")
        case True
        have "simulates (scan_leaf alpha1 (norelax_leaf d nd) ds ls' simplex (fst ?v1) (snd ?v1))
                        (scan_leaf alpha2 (norelax_leaf d nd) ds ls' simplex (fst ?v2) (snd ?v2))"
          using v by (intro Cons.IH) (simp_all add: simulates_def)
        then show ?thesis unfolding ls scan_leaf_Cons using True a2 by simp
      next
        case False
        let ?r2 = "scan_leaf alpha2 (norelax_leaf d nd) ds ls' simplex (fst ?v2) (snd ?v2)"
        have "sub_complex (sc st1) (sc (snd ?r2))"
          using Cons.prems(1) grow_leaf_visit[of st2 nd d "simplex @ [l]" w2]
            grow_scan_leaf[of "snd ?v2" alpha2 "norelax_leaf d nd" ds ls' simplex "fst ?v2"]
          by (blast intro: sub_complex_trans)
        moreover have "w1 \<longrightarrow> fst ?r2"
          using Cons.prems(2) keep_leaf_visit[of w2 nd d "simplex @ [l]" st2]
            keep_scan_leaf[of "fst ?v2" alpha2 "norelax_leaf d nd" ds ls' simplex "snd ?v2"]
          by blast
        ultimately show ?thesis unfolding ls scan_leaf_Cons using False a2
          by (simp add: simulates_def)
      qed
    qed
  qed
qed

lemma sim_include_call:
  assumes P: "\<And>dm nd ds simplex st1 st2. sub_complex (sc st1) (sc st2) \<Longrightarrow>
                simulates (add_all_faces_of_dimension dm alpha1 nd ds ls simplex st1)
                          (add_all_faces_of_dimension dm alpha2 nd ds ls simplex st2)"
    and s: "sub_complex (sc st1) (sc st2)" and w: "w1 \<longrightarrow> w2"
  shows "simulates (include_call dm alpha1 nd ds ls simplex l w1 st1)
                   (include_call dm alpha2 nd ds ls simplex l w2 st2)"
proof (cases "find_simplex (sc st1) (simplex @ [l]) \<noteq> None")
  case True
  then have f2: "find_simplex (sc st2) (simplex @ [l]) \<noteq> None"
    using s by (auto simp: sub_complex_def)
  from P[OF s, of "dm - 1" nd ds "simplex @ [l]"] show ?thesis
    using True f2 w by (simp add: include_call_def case_prod_beta simulates_def)
next
  case False
  show ?thesis
  proof (cases "find_simplex (sc st2) (simplex @ [l]) \<noteq> None")
    case f2: True
    have "sub_complex (sc st1)
            (sc (snd (add_all_faces_of_dimension (dm - 1) alpha2 nd ds ls (simplex @ [l]) st2)))"
      using s grow_add_all by (blast intro: sub_complex_trans)
    then show ?thesis using False f2 w
      by (simp add: include_call_def case_prod_beta simulates_def)
  next
    case f2: False
    then show ?thesis using False s w by (simp add: include_call_def)
  qed
qed

lemma sim_scan_inner_step:
  assumes le: "alpha1 \<le> alpha2"
    and P: "\<And>dm nd ds simplex st1 st2. sub_complex (sc st1) (sc st2) \<Longrightarrow>
                simulates (add_all_faces_of_dimension dm alpha1 nd ds ls simplex st1)
                          (add_all_faces_of_dimension dm alpha2 nd ds ls simplex st2)"
    and Q: "\<And>dm nd ds simplex w1 w2 st1 st2. sub_complex (sc st1) (sc st2) \<Longrightarrow> (w1 \<longrightarrow> w2) \<Longrightarrow>
                simulates (scan_inner dm alpha1 nd ds ls simplex w1 st1)
                          (scan_inner dm alpha2 nd ds ls simplex w2 st2)"
    and s: "sub_complex (sc st1) (sc st2)" and w: "w1 \<longrightarrow> w2"
  shows "simulates (scan_inner dm alpha1 nd (d # ds) (l # ls) simplex w1 st1)
                   (scan_inner dm alpha2 nd (d # ds) (l # ls) simplex w2 st2)"
proof -
  let ?n = "norelax_inner d nd"
  let ?a1 = "include_call dm alpha1 nd ds ls simplex l w1 st1"
  let ?a2 = "include_call dm alpha2 nd ds ls simplex l w2 st2"
  let ?b1 = "add_all_faces_of_dimension (dm - 1) alpha1 ?n ds ls simplex (snd ?a1)"
  let ?b2 = "add_all_faces_of_dimension (dm - 1) alpha2 ?n ds ls simplex (snd ?a2)"
  let ?r1 = "scan_inner dm alpha1 ?n ds ls simplex (fst ?b1 \<or> fst ?a1) (snd ?b1)"
  let ?r2 = "scan_inner dm alpha2 ?n ds ls simplex (fst ?b2 \<or> fst ?a2) (snd ?b2)"
  have a: "simulates ?a1 ?a2" using P s w by (rule sim_include_call)
  then have b: "simulates ?b1 ?b2" by (intro P) (simp add: simulates_def)
  have r: "simulates ?r1 ?r2"
    using a b by (intro Q) (simp_all add: simulates_def)
  show ?thesis
  proof (cases "admissible alpha2 nd d")
    case False
    then have "\<not> admissible alpha1 nd d" using admissible_mono[OF le] by blast
    with False show ?thesis unfolding scan_inner_Cons using s w by simp
  next
    case a2: True
    show ?thesis
    proof (cases "admissible alpha1 nd d")
      case True
      then show ?thesis unfolding scan_inner_Cons using a2 r by simp
    next
      case False
      have "sub_complex (sc st2) (sc (snd ?a2))" by (rule grow_include_call)
      moreover have "sub_complex (sc (snd ?a2)) (sc (snd ?b2))" by (rule grow_add_all)
      moreover have "sub_complex (sc (snd ?b2)) (sc (snd ?r2))" by (rule grow_scan_inner)
      ultimately have "sub_complex (sc st1) (sc (snd ?r2))"
        using s by (blast intro: sub_complex_trans)
      moreover have "w1 \<longrightarrow> fst ?r2"
        using w keep_include_call[of w2 dm alpha2 nd ds ls simplex l st2]
          keep_scan_inner[of "fst ?b2 \<or> fst ?a2" dm alpha2 ?n ds ls simplex "snd ?b2"]
        by blast
      ultimately show ?thesis unfolding scan_inner_Cons using False a2
        by (simp add: simulates_def)
    qed
  qed
qed

lemma sim_recursion:
  assumes le: "alpha1 \<le> alpha2"
  shows "(\<forall>dm nd ds simplex st1 st2. sub_complex (sc st1) (sc st2) \<longrightarrow>
            simulates (add_all_faces_of_dimension dm alpha1 nd ds ls simplex st1)
                      (add_all_faces_of_dimension dm alpha2 nd ds ls simplex st2))
       \<and> (\<forall>dm nd ds simplex w1 w2 st1 st2. sub_complex (sc st1) (sc st2) \<longrightarrow> (w1 \<longrightarrow> w2) \<longrightarrow>
            simulates (scan_inner dm alpha1 nd ds ls simplex w1 st1)
                      (scan_inner dm alpha2 nd ds ls simplex w2 st2))"
proof (induction ls)
  case Nil
  have "simulates (scan_inner dm alpha1 nd ds [] simplex w1 st1)
                  (scan_inner dm alpha2 nd ds [] simplex w2 st2)"
    if "sub_complex (sc st1) (sc st2)" "w1 \<longrightarrow> w2" for dm nd ds simplex w1 w2 st1 st2
    using that by (cases ds) simp_all
  then show ?case by simp
next
  case (Cons l ls)
  have Q: "simulates (scan_inner dm alpha1 nd ds (l # ls) simplex w1 st1)
                     (scan_inner dm alpha2 nd ds (l # ls) simplex w2 st2)"
    if "sub_complex (sc st1) (sc st2)" "w1 \<longrightarrow> w2" for dm nd ds simplex w1 w2 st1 st2
  proof (cases ds)
    case Nil
    then show ?thesis using that by simp
  next
    case ds: (Cons d ds')
    show ?thesis unfolding ds
    proof (rule sim_scan_inner_step[OF le])
      show "\<And>dm nd ds simplex st1 st2. sub_complex (sc st1) (sc st2) \<Longrightarrow>
                simulates (add_all_faces_of_dimension dm alpha1 nd ds ls simplex st1)
                          (add_all_faces_of_dimension dm alpha2 nd ds ls simplex st2)"
        using Cons.IH by blast
      show "\<And>dm nd ds simplex w1 w2 st1 st2. sub_complex (sc st1) (sc st2) \<Longrightarrow> (w1 \<longrightarrow> w2) \<Longrightarrow>
                simulates (scan_inner dm alpha1 nd ds ls simplex w1 st1)
                          (scan_inner dm alpha2 nd ds ls simplex w2 st2)"
        using Cons.IH by blast
      show "sub_complex (sc st1) (sc st2)" by (rule that(1))
      show "w1 \<longrightarrow> w2" by (rule that(2))
    qed
  qed
  have P: "simulates (add_all_faces_of_dimension dm alpha1 nd ds (l # ls) simplex st1)
                     (add_all_faces_of_dimension dm alpha2 nd ds (l # ls) simplex st2)"
    if s: "sub_complex (sc st1) (sc st2)" for dm nd ds simplex st1 st2
  proof -
    have e: "sub_complex (sc (enter st1)) (sc (enter st2))" using s by simp
    consider "dm > 0" | "dm = 0" | "dm < 0" by linarith
    then show ?thesis
    proof cases
      case 1
      from Q[OF e, of False False dm nd ds simplex] show ?thesis
        unfolding add_all_Cons using 1 by (simp add: simulates_def)
    next
      case 2
      from sim_scan_leaf[OF le e, of False False nd ds "l # ls" simplex] show ?thesis
        unfolding add_all_Cons using 2 by (simp add: simulates_def)
    next
      case 3
      then show ?thesis unfolding add_all_Cons using s by simp
    qed
  qed
  from P Q show ?case by blast
qed

lemma sim_add_all:
  "alpha1 \<le> alpha2 \<Longrightarrow> sub_complex (sc st1) (sc st2) \<Longrightarrow>
     simulates (add_all_faces_of_dimension dm alpha1 nd ds ls simplex st1)
               (add_all_faces_of_dimension dm alpha2 nd ds ls simplex st2)"
  using sim_recursion[of alpha1 alpha2 ls] by blast

lemma sim_witness_loop:
  assumes le: "alpha1 \<le> alpha2"
  shows "subseq a1 a2 \<Longrightarrow> sub_complex (sc st1) (sc st2) \<Longrightarrow>
         subseq (fst (witness_loop k alpha1 distances knn a1 st1))
                (fst (witness_loop k alpha2 distances knn a2 st2))
         \<and> sub_complex (sc (snd (witness_loop k alpha1 distances knn a1 st1)))
                        (sc (snd (witness_loop k alpha2 distances knn a2 st2)))"
proof (induction a2 arbitrary: a1 st1 st2)
  case Nil
  then have "a1 = []" by (auto dest: list_emb_Nil2)
  with Nil show ?case by simp
next
  case (Cons w a2)
  let ?c2 = "add_all_faces_of_dimension k alpha2 Infinity (row distances w) (row knn w) [] st2"
  let ?t2 = "witness_loop k alpha2 distances knn a2 (snd ?c2)"
  have r2: "witness_loop k alpha2 distances knn (w # a2) st2 =
              (if fst ?c2 then w # fst ?t2 else fst ?t2, snd ?t2)"
    by (simp add: case_prod_beta)
  have g2: "sub_complex (sc st2) (sc (snd ?c2))" by (rule grow_add_all)
  show ?case
  proof (cases a1)
    case Nil
    have "sub_complex (sc st1) (sc (snd ?t2))"
      using Cons.prems(2) g2 grow_witness_loop[of "snd ?c2" k alpha2 distances knn a2]
      by (blast intro: sub_complex_trans)
    then show ?thesis unfolding r2 Nil by simp
  next
    case a1: (Cons v a1')
    show ?thesis
    proof (cases "v = w")
      case True
      then have ss: "subseq a1' a2" using Cons.prems(1) a1 by simp
      let ?c1 = "add_all_faces_of_dimension k alpha1 Infinity (row distances w) (row knn w) [] st1"
      let ?t1 = "witness_loop k alpha1 distances knn a1' (snd ?c1)"
      have r1: "witness_loop k alpha1 distances knn a1 st1 =
              (if fst ?c1 then w # fst ?t1 else fst ?t1, snd ?t1)"
        unfolding a1 True by (simp add: case_prod_beta)
      have c: "simulates ?c1 ?c2" using le Cons.prems(2) by (rule sim_add_all)
      then have "sub_complex (sc (snd ?c1)) (sc (snd ?c2))" by (simp add: simulates_def)
      from Cons.IH[OF ss this] have t: "subseq (fst ?t1) (fst ?t2)"
        "sub_complex (sc (snd ?t1)) (sc (snd ?t2))" by auto
      from c have "fst ?c1 \<longrightarrow> fst ?c2" by (simp add: simulates_def)
      with t show ?thesis unfolding r1 r2 by auto
    next
      case False
      then have ss: "subseq a1 a2" using Cons.prems(1) a1 by simp
      have "sub_complex (sc st1) (sc (snd ?c2))"
        using Cons.prems(2) g2 by (blast intro: sub_complex_trans)
      from Cons.IH[OF ss this] show ?thesis unfolding r2 by auto
    qed
  qed
qed

lemma sim_construct_loop:
  "alpha1 \<le> alpha2 \<Longrightarrow> subseq a1 a2 \<Longrightarrow> sub_complex (sc st1) (sc st2) \<Longrightarrow>
     sub_complex (sc (snd (snd (construct_loop nbL limD alpha1 distances knn k a1 st1))))
                 (sc (snd (snd (construct_loop nbL limD alpha2 distances knn k a2 st2))))"
proof (induction nbL limD alpha1 distances knn k a1 st1 arbitrary: a2 st2
       rule: construct_loop.induct)
  case (1 nbL limD alpha1 distances knn k a1 st1)
  show ?case
  proof (cases "a1 \<noteq> [] \<and> k \<le> limD \<and> k < int nbL")
    case True
    then have "a2 \<noteq> []" using "1.prems"(2) by (auto dest: list_emb_Nil2)
    with True have c2: "a2 \<noteq> [] \<and> k \<le> limD \<and> k < int nbL" by simp
    note sw = sim_witness_loop[OF "1.prems"(1,2,3), of k distances knn]
    from "1.IH"[OF True prod.collapse "1.prems"(1) sw[THEN conjunct1] sw[THEN conjunct2]]
    show ?thesis
      by (simp add: construct_loop_step[OF True] construct_loop_step[OF c2])
  next
    case False
    have "sub_complex (sc st1)
            (sc (snd (snd (construct_loop nbL limD alpha2 distances knn k a2 st2))))"
      using "1.prems"(3) grow_construct_loop by (blast intro: sub_complex_trans)
    then show ?thesis by (simp add: construct_loop_stop[OF False])
  qed
qed

text \<open>
  C6. Alpha-monotonicity: for the same distance and landmark tables, landmark count,
  dimension limit and initial complex, and relaxation parameters \<open>0 \<le> alpha1 \<le> alpha2\<close>,
  every simplex of the complex built with \<open>alpha1\<close> is a simplex of the complex built with
  \<open>alpha2\<close>.
\<close>

theorem alpha_monotone:
  assumes "0 \<le> alpha1" and "alpha1 \<le> alpha2"
    and "find_simplex (sc (Relaxed_witness_complex distances knn sc0 nbL alpha1 limD)) s \<noteq> None"
  shows "find_simplex (sc (Relaxed_witness_complex distances knn sc0 nbL alpha2 limD)) s \<noteq> None"
proof -
  have "sub_complex
          (sc (snd (snd (construct_loop nbL limD alpha1 distances knn 1 [0..<length knn]
                           (init_state (fill_landmarks nbL sc0))))))
          (sc (snd (snd (construct_loop nbL limD alpha2 distances knn 1 [0..<length knn]
                           (init_state (fill_landmarks nbL sc0))))))"
    using assms(2) by (intro sim_construct_loop) simp_all
  then show ?thesis using assms(3) unfolding sc_Relaxed by (simp add: sub_complex_def)
qed

lemma zero_alpha_run:
  "simplices (sc (Relaxed_witness_complex [[1, 15/10, 2, 10]] [[0, 1, 2, 3]] empty_complex 4 0 2))
     = [([0], 0), ([1], 0), ([2], 0), ([3], 0), ([0, 1], 0)]"
  by (simp add: relaxed_eval)

theorem alpha_monotone_witness:
  "(0 :: real) \<le> 0 \<and> (0 :: real) \<le> 1
   \<and> find_simplex (sc (Relaxed_witness_complex [[1, 15/10, 2, 10]] [[0, 1, 2, 3]] empty_complex 4 0 2))
        [0, 1] \<noteq> None
   \<and> find_simplex (sc (Relaxed_witness_complex [[1, 15/10, 2, 10]] [[0, 1, 2, 3]] empty_complex 4 1 2))
        [0, 1] \<noteq> None"
proof -
  have p: "find_simplex (sc (Relaxed_witness_complex [[1, 15/10, 2, 10]] [[0, 1, 2, 3]]
                               empty_complex 4 0 2)) [0, 1] \<noteq> None"
    unfolding find_simplex_def zero_alpha_run by simp
  have a: "(0 :: real) \<le> 0" "(0 :: real) \<le> 1" by simp_all
  from alpha_monotone[OF a p] show ?thesis using p by simp
qed

end
